theory Spec2Isabelle
  imports Main "HOL-Library.Word" "HOL-Library.Multiset"
begin

unbundle bit_operations_syntax

section \<open>Common definitions (common.h)\<close>

text \<open>
  Variables and literals are 32-bit unsigned integers. A literal is the variable shifted
  left by one bit with the polarity in the least significant bit. Array sizes, loop
  indices and quantifier orderings are \<open>uint32_t\<close> in the source; they are modelled as
  natural numbers, since every one of them is bounded by the length of an array whose
  size field is itself 32 bits wide, so none of them wraps.
\<close>

type_synonym Variable = "32 word"
type_synonym Literal = "32 word"

definition LITSIGNBIT :: "Literal \<Rightarrow> 32 word" where
  "LITSIGNBIT lit = lit AND 1"

definition LIT2VAR :: "Literal \<Rightarrow> Variable" where
  "LIT2VAR lit = drop_bit 1 lit"

definition VAR2LIT :: "Variable \<Rightarrow> 32 word \<Rightarrow> Literal" where
  "VAR2LIT var signb = push_bit 1 var OR signb"

definition LIT_NEG :: "Literal \<Rightarrow> Literal" where
  "LIT_NEG lit = lit XOR 1"

definition EXIT_PARSING_FAILURE :: nat where
  "EXIT_PARSING_FAILURE = 80"

text \<open>
  Abnormal termination: a failed \<open>assert\<close> aborts the process, \<open>fatal_parse_error\<close>
  leaves it with the given exit code.
\<close>

datatype error = AssertionFailure | Fatal nat

section \<open>Lexical primitives (parsing.c)\<close>

datatype ParseState =
    PARSE_STATE_NONE
  | PARSE_STATE_PROBLEM
  | PARSE_STATE_COMMENT
  | PARSE_STATE_QUANTIFIER
  | PARSE_STATE_CLAUSE
  | PARSE_STATE_PLAIN_COMMENT
  | PARSE_STATE_MAPPING_COMMENT
  | PARSE_STATE_ORIGIN_COMMENT

text \<open>
  The parser state. The field \<open>stream\<close> holds the bytes of the (decompressed) input that
  have not been read yet: \<open>gzread\<close> delivers the next byte, and once the bytes are used
  up a read delivers nothing, leaves the look-ahead as it was, and \<open>gzeof\<close> becomes true.
\<close>

record Parser =
  stream :: "char list"
  eof :: bool
  silent :: bool
  line :: "32 word"
  col :: "32 word"
  prev :: char
  la :: char
  state :: ParseState

definition read_one_char :: "Parser \<Rightarrow> Parser" where
  "read_one_char p =
     (let p1 = p\<lparr>prev := la p\<rparr>;
          p2 = (if prev p1 = CHR 0x0A then p1\<lparr>col := 0, line := line p1 + 1\<rparr> else p1);
          p3 = p2\<lparr>col := col p2 + 1\<rparr>
      in case stream p3 of
           [] \<Rightarrow> p3\<lparr>eof := True\<rparr>
         | c # cs \<Rightarrow> p3\<lparr>la := c, stream := cs\<rparr>)"

definition is_white :: "char \<Rightarrow> bool" where
  "is_white c = (c = CHR '' '' \<or> c = CHR 0x09 \<or> c = CHR 0x0B \<or> c = CHR 0x0D)"

definition remaining :: "Parser \<Rightarrow> nat" where
  "remaining p = length (stream p) + (if eof p then 0 else 1)"

lemma remaining_read_one_char: "\<not> eof p \<Longrightarrow> remaining (read_one_char p) < remaining p"
  by (cases "stream p") (simp_all add: remaining_def read_one_char_def Let_def)

function skip_white_loop :: "Parser \<Rightarrow> 32 word \<Rightarrow> 32 word \<times> Parser" where
  "skip_white_loop p num_read =
     (if is_white (la p)
      then (if eof p then (num_read, p)
            else skip_white_loop (read_one_char p) (num_read + 1))
      else (num_read, p))"
  by pat_completeness auto
termination
  by (relation "measure (\<lambda>(p, n). remaining p)") (auto simp: remaining_read_one_char)

definition skip_white :: "Parser \<Rightarrow> 32 word \<times> Parser" where
  "skip_white p = skip_white_loop p 0"

text \<open>The \<open>switch\<close> of \<open>expect_number\<close>: the value of a decimal digit, if the byte is one.\<close>

definition digit_value :: "char \<Rightarrow> 32 word option" where
  "digit_value = map_of
     [(CHR ''0'', 0), (CHR ''1'', 1), (CHR ''2'', 2), (CHR ''3'', 3), (CHR ''4'', 4),
      (CHR ''5'', 5), (CHR ''6'', 6), (CHR ''7'', 7), (CHR ''8'', 8), (CHR ''9'', 9)]"

function expect_number_loop :: "Parser \<Rightarrow> 32 word \<Rightarrow> 32 word \<times> Parser" where
  "expect_number_loop p num =
     (if eof p then (num, p)
      else case digit_value (la p) of
             None \<Rightarrow> (num, p)
           | Some d \<Rightarrow> expect_number_loop (read_one_char p) (num * 10 + d))"
  by pat_completeness auto
termination
  by (relation "measure (\<lambda>(p, n). remaining p)") (auto simp: remaining_read_one_char)

text \<open>
  \<open>expect_number\<close> accumulates in a \<open>uint32_t\<close> and returns an \<open>int64_t\<close>, which
  holds every 32-bit value and its negation: the result is an integer.
\<close>

definition expect_number :: "Parser \<Rightarrow> bool \<Rightarrow> error + (int \<times> Parser)" where
  "expect_number p0 expect_positive =
     (let p = snd (skip_white p0);
          is_neg = (la p = CHR ''-'')
      in if is_neg \<and> expect_positive then Inl (Fatal EXIT_PARSING_FAILURE)
         else let p1 = (if is_neg then read_one_char p else p);
                  r = expect_number_loop p1 0
              in Inr (if is_neg then - uint (fst r) else uint (fst r), snd r))"

declare skip_white_loop.simps [simp del]
declare expect_number_loop.simps [simp del]

definition expect_number_literal :: "Parser \<Rightarrow> int \<Rightarrow> error + (int \<times> Parser)" where
  "expect_number_literal p literal =
     (case expect_number p False of
        Inl e \<Rightarrow> Inl e
      | Inr (num, p') \<Rightarrow>
          if num \<noteq> literal then Inl (Fatal EXIT_PARSING_FAILURE) else Inr (num, p'))"


section \<open>Array lists (arraylist.h, arraylist.c)\<close>

text \<open>
  An array list is a list; its \<open>size\<close> field is the length of the list. The functions
  below are the instances for \<open>Literal\<close> (\<open>allit_\<close>).
\<close>

fun allit_insert_sorted :: "Literal list \<Rightarrow> Literal \<Rightarrow> Literal list" where
  "allit_insert_sorted [] element = [element]"
| "allit_insert_sorted (x # xs) element =
     (if element > x then x # allit_insert_sorted xs element else element # x # xs)"

definition allit_remove :: "Literal list \<Rightarrow> nat \<Rightarrow> Literal list" where
  "allit_remove al index = take index al @ drop (Suc index) al"

text \<open>
  The loop of \<open>allit_binary_search_index\<close>; the result is an \<open>int64_t\<close>, \<open>-1\<close> when the
  element is not found.
\<close>

function binary_search_loop :: "Literal list \<Rightarrow> Literal \<Rightarrow> nat \<Rightarrow> nat \<Rightarrow> int" where
  "binary_search_loop al element low high =
     (if high \<ge> low
      then (let mid = low + (high - low) div 2;
                other_element = al ! mid
            in if element = other_element then int mid
               else if element > other_element
                    then binary_search_loop al element (mid + 1) high
               else if mid = 0 then - 1
               else binary_search_loop al element low (mid - 1))
      else - 1)"
  by pat_completeness auto
termination
  by (relation "measure (\<lambda>(al, e, low, high). high + 1 - low)") auto

declare binary_search_loop.simps [simp del]

definition allit_binary_search_index :: "Literal list \<Rightarrow> Literal \<Rightarrow> int" where
  "allit_binary_search_index al element =
     (if length al < 1 then - 1 else binary_search_loop al element 0 (length al - 1))"

definition allit_binary_search_contains :: "Literal list \<Rightarrow> Literal \<Rightarrow> bool" where
  "allit_binary_search_contains al element = (allit_binary_search_index al element \<noteq> - 1)"

lemma binary_search_loop_step:
  assumes "low \<le> high" and "mid = low + (high - low) div 2"
  shows "binary_search_loop al element low high =
     (if element = al ! mid then int mid
      else if element > al ! mid then binary_search_loop al element (mid + 1) high
      else if mid = 0 then - 1
      else binary_search_loop al element low (mid - 1))"
  apply (subst binary_search_loop.simps)
  unfolding Let_def assms(2)[symmetric]
  using assms(1) apply (simp only: if_True)
  done

lemma binary_search_loop_range:
  "0 \<le> binary_search_loop al element low high \<Longrightarrow>
     nat (binary_search_loop al element low high) \<le> high"
proof (induction al element low high rule: binary_search_loop.induct)
  case (1 al element low high)
  show ?case
  proof (cases "high \<ge> low")
    case False
    with "1.prems" show ?thesis by (simp add: binary_search_loop.simps)
  next
    case True
    define mid where "mid = low + (high - low) div 2"
    have mid: "mid \<le> high" using True by (simp add: mid_def)
    note step = binary_search_loop_step[OF True mid_def, of al element]
    consider (eq) "element = al ! mid"
      | (gt) "element \<noteq> al ! mid" "element > al ! mid"
      | (z) "element \<noteq> al ! mid" "\<not> element > al ! mid" "mid = 0"
      | (lt) "element \<noteq> al ! mid" "\<not> element > al ! mid" "mid \<noteq> 0"
      by blast
    then show ?thesis
    proof cases
      case eq
      with step mid show ?thesis by simp
    next
      case gt
      with "1.IH"(1)[OF True mid_def refl gt] "1.prems" step show ?thesis by simp
    next
      case z
      with step "1.prems" show ?thesis by simp
    next
      case lt
      have "nat (binary_search_loop al element low (mid - 1)) \<le> mid - 1"
        using "1.IH"(2)[OF True mid_def refl lt] "1.prems" step lt by simp
      with mid step lt show ?thesis by simp
    qed
  qed
qed

lemma allit_binary_search_index_range:
  "0 \<le> allit_binary_search_index al element \<Longrightarrow>
     nat (allit_binary_search_index al element) < length al"
  using binary_search_loop_range[of al element 0 "length al - 1"]
  by (cases al) (auto simp: allit_binary_search_index_def split: if_splits)

text \<open>
  \<open>while ((idx = allit_binary_search_index(*V, lit)) >= 0) allit_remove(*V, idx);\<close>
  The assertion \<open>index < al->size\<close> of \<open>allit_remove\<close> holds for every index the
  search returns (lemma \<open>allit_binary_search_index_range\<close>).
\<close>

function remove_all_occurrences :: "Literal list \<Rightarrow> Literal \<Rightarrow> Literal list" where
  "remove_all_occurrences V lit =
     (let idx = allit_binary_search_index V lit
      in if idx \<ge> 0 then remove_all_occurrences (allit_remove V (nat idx)) lit else V)"
  by pat_completeness auto
termination
proof (relation "measure (\<lambda>(V, lit). length V)", goal_cases)
  case 1
  show ?case by simp
next
  case (2 V lit idx)
  then have "nat idx < length V"
    using allit_binary_search_index_range[of V lit] by simp
  then show ?case by (simp add: allit_remove_def)
qed

declare remove_all_occurrences.simps [simp del]


section \<open>Sorting (sorting.c, sorting.h)\<close>

text \<open>
  A \<open>struct Partial\<close> is a projection applied to each value to obtain its sort key.
\<close>

definition sort_identity :: "32 word \<Rightarrow> 32 word" where
  "sort_identity v = v"

definition swap_values :: "32 word list \<Rightarrow> nat \<Rightarrow> nat \<Rightarrow> 32 word list" where
  "swap_values values p0 p1 = values[p0 := values ! p1, p1 := values ! p0]"

text \<open>
  The inner \<open>for\<close> loop of the quicksort. The source keeps \<open>i\<close> as a signed 64-bit
  value starting at \<open>low - 1\<close> and increments it before each swap; the model keeps
  \<open>i + 1\<close>, which is never negative, in \<open>i1\<close>.
\<close>

function partition_loop ::
  "(32 word \<Rightarrow> 'k::linorder) \<Rightarrow> 'k \<Rightarrow> nat \<Rightarrow> 32 word list \<Rightarrow> nat \<Rightarrow> nat \<Rightarrow> 32 word list \<times> nat"
where
  "partition_loop partial central high values i1 j =
     (if j < high
      then (if partial (values ! j) > central
            then partition_loop partial central high values i1 (j + 1)
            else partition_loop partial central high (swap_values values i1 j) (i1 + 1) (j + 1))
      else (values, i1))"
  by pat_completeness auto
termination
  by (relation "measure (\<lambda>(partial, central, high, values, i1, j). high - j)") auto

declare partition_loop.simps [simp del]

lemma partition_loop_pivot:
  "i1 \<le> j \<Longrightarrow> i1 \<le> snd (partition_loop partial central high vs i1 j)
     \<and> snd (partition_loop partial central high vs i1 j) \<le> max j high"
proof (induction "partial" central high vs i1 j rule: partition_loop.induct)
  case (1 key central high vs i1 j)
  show ?case
  proof (cases "j < high")
    case False
    with "1.prems" show ?thesis by (simp add: partition_loop.simps)
  next
    case True
    show ?thesis
    proof (cases "key (vs ! j) > central")
      case gt: True
      have "partition_loop key central high vs i1 j =
            partition_loop key central high vs i1 (j + 1)"
        using True gt by (subst partition_loop.simps) simp
      with "1.IH"(1)[OF True gt] "1.prems" True show ?thesis by (simp add: max_def)
    next
      case le: False
      have "partition_loop key central high vs i1 j =
            partition_loop key central high (swap_values vs i1 j) (i1 + 1) (j + 1)"
        using True le by (subst partition_loop.simps) simp
      with "1.IH"(2)[OF True le] "1.prems" True show ?thesis by (simp add: max_def)
    qed
  qed
qed

text \<open>
  One round of the \<open>while\<close> loop for the range \<open>(low, high)\<close> popped off the stack:
  partition around the rightmost element and return the array with the pivot index.
\<close>

definition partition_range ::
  "(32 word \<Rightarrow> 'k::linorder) \<Rightarrow> nat \<Rightarrow> nat \<Rightarrow> 32 word list \<Rightarrow> 32 word list \<times> nat"
where
  "partition_range partial low high values =
     (let central = partial (values ! high);
          r = partition_loop partial central high values low low;
          i1 = snd r
      in (if i1 < high then swap_values (fst r) i1 high else fst r, i1))"

text \<open>
  The stack holds the pending ranges. The source pushes \<open>low\<close> and then \<open>high\<close> as two
  entries and pops them in reverse order; the model keeps each such pair as one entry,
  the top of the stack first. \<open>high - 1\<close> cannot wrap below zero, because every range
  on the stack has \<open>low < high\<close>.
\<close>

definition push_ranges :: "nat \<Rightarrow> nat \<Rightarrow> nat \<Rightarrow> (nat \<times> nat) list \<Rightarrow> (nat \<times> nat) list" where
  "push_ranges low high pivot stack =
     (let stack1 = (if low + 1 < pivot then (low, pivot - 1) # stack else stack)
      in if high - 1 > pivot then (pivot + 1, high) # stack1 else stack1)"

definition stack_measure :: "(nat \<times> nat) list \<Rightarrow> nat" where
  "stack_measure stack = sum_list (map (\<lambda>(low, high). 2 * (high - low) + 1) stack)"

lemma stack_measure_push:
  assumes "low \<le> pivot" and "pivot \<le> max low high"
  shows "stack_measure (push_ranges low high pivot stack) < stack_measure ((low, high) # stack)"
  using assms by (auto simp: stack_measure_def push_ranges_def Let_def max_def split: if_splits)

lemma partition_range_pivot:
  "low \<le> snd (partition_range partial low high vs)
     \<and> snd (partition_range partial low high vs) \<le> max low high"
  using partition_loop_pivot[of low low "partial" "partial (vs ! high)" high vs]
  by (simp add: partition_range_def Let_def)

function quicksort_loop ::
  "(32 word \<Rightarrow> 'k::linorder) \<Rightarrow> (nat \<times> nat) list \<Rightarrow> 32 word list \<Rightarrow> 32 word list"
where
  "quicksort_loop partial [] values = values"
| "quicksort_loop partial ((low, high) # stack) values =
     (let r = partition_range partial low high values
      in quicksort_loop partial (push_ranges low high (snd r) stack) (fst r))"
  by pat_completeness auto
termination
proof (relation "measure (\<lambda>(partial, stack, values). stack_measure stack)", goal_cases)
  case 1
  show ?case by simp
next
  case (2 key low high stack vs r)
  then show ?case
    using stack_measure_push[of low "snd (partition_range key low high vs)" high stack]
      partition_range_pivot[of low key high vs]
    by simp
qed

text \<open>The stack passed in is empty at every call: each call leaves it empty.\<close>

definition iterative_inplace_quickort ::
  "(32 word \<Rightarrow> 'k::linorder) \<Rightarrow> 32 word list \<Rightarrow> 32 word list"
where
  "iterative_inplace_quickort partial values =
     (if length values < 2 then values
      else quicksort_loop partial [(0, length values - 1)] values)"


section \<open>Formulas (qbf.h, expansion.h)\<close>

datatype QuantType = QUANT_TYPE_NONE | QUANT_TYPE_EXISTENTIAL | QUANT_TYPE_UNIVERSAL

text \<open>
  Variable-sized structs hold their element count next to the elements; the model keeps
  the elements as a list, and the count (\<open>num_vars\<close>, \<open>num_literals\<close>,
  \<open>num_annotation_literals\<close>) is the length of that list.
\<close>

record Quantifier =
  quant_type :: QuantType
  ordering :: nat
  variables :: "Variable list"

type_synonym QBFClause = "Literal list"
type_synonym ExpClause = "Literal list"

text \<open>
  The hash tables are keyed by \<open>hash_fnv1a\<close> of a variable, which is injective (an
  exclusive-or followed by a multiplication with an odd constant modulo \<open>2 ^ 64\<close>);
  a table is modelled by the partial map from variables that \<open>ht_get\<close> computes.
  The table \<open>warned_free\<close> only decides whether a warning is printed and is left out.
\<close>

record QBF =
  max_var :: "32 word"
  num_alternations :: "32 word"
  prefix_mapping :: "Variable \<rightharpoonup> Quantifier"
  prefix :: "Quantifier list"
  matrix :: "QBFClause list"

record ExpVarMapping =
  qbf_var :: Variable
  exp_var :: Variable
  annotation :: "Literal list"

text \<open>
  \<open>clause_origins\<close> is \<open>None\<close> for the \<open>NULL\<close> pointer. The parser inside the
  struct produces the expansion clauses; the checker below receives the clauses it yields
  as a list.
\<close>

record Expansion =
  p_max_var :: "32 word"
  p_num_clauses :: "32 word"
  clause_origins :: "nat list option"
  exp_var_mappings :: "Variable \<rightharpoonup> ExpVarMapping"

definition qbf_get_quant_ordering_from_index_partial :: "QBF \<Rightarrow> 32 word \<Rightarrow> nat" where
  "qbf_get_quant_ordering_from_index_partial qbf lit =
     (case prefix_mapping qbf (LIT2VAR lit) of
        None \<Rightarrow> 0
      | Some quant \<Rightarrow> ordering quant)"

definition qbf_sort_clauses_in_matrix :: "QBF \<Rightarrow> QBF" where
  "qbf_sort_clauses_in_matrix qbf =
     qbf\<lparr>matrix :=
           map (iterative_inplace_quickort (qbf_get_quant_ordering_from_index_partial qbf))
             (matrix qbf)\<rparr>"

section \<open>The checker (check.h, check.c)\<close>

datatype FERATCheckResultType =
    FERAT_CHECK_RESULT_INCORRECT_LITERALS
  | FERAT_CHECK_RESULT_INCORRECT_ANNOTATION

text \<open>
  \<open>num_results\<close> and the clause index are 32-bit counters of recorded failures and of
  yielded clauses; they are natural numbers here (they would wrap only after \<open>2 ^ 32\<close>
  expansion clauses).
\<close>

record FERATCheckResult =
  types :: "FERATCheckResultType list"
  clause_indices :: "nat list"
  num_results :: nat

definition ferat_check_result_new :: FERATCheckResult where
  "ferat_check_result_new = \<lparr>types = [], clause_indices = [], num_results = 0\<rparr>"

definition ferat_insert_check_result ::
  "FERATCheckResult \<Rightarrow> FERATCheckResultType \<Rightarrow> nat \<Rightarrow> FERATCheckResult"
where
  "ferat_insert_check_result result type clause_index =
     result\<lparr>num_results := num_results result + 1,
            types := types result @ [type],
            clause_indices := clause_indices result @ [clause_index]\<rparr>"

subsection \<open>The existential-literal test\<close>

text \<open>The linear search \<open>for (j = 0; ...) if (qbf_lit == qbf_clause->lits[j])\<close>.\<close>

fun lit_in_clause :: "Literal \<Rightarrow> QBFClause \<Rightarrow> bool" where
  "lit_in_clause qbf_lit [] = False"
| "lit_in_clause qbf_lit (l # ls) = (if qbf_lit = l then True else lit_in_clause qbf_lit ls)"

text \<open>
  The first loop of the test, over the expansion literals not yet visited. A literal
  without a mapping record fails the assertion \<open>result.ok\<close>.
\<close>

fun exp_lits_in_clause :: "QBFClause \<Rightarrow> Expansion \<Rightarrow> Literal list \<Rightarrow> error + bool" where
  "exp_lits_in_clause qbf_clause expansion [] = Inr True"
| "exp_lits_in_clause qbf_clause expansion (exp_lit # rest) =
     (case exp_var_mappings expansion (LIT2VAR exp_lit) of
        None \<Rightarrow> Inl AssertionFailure
      | Some mapping \<Rightarrow>
          (let qbf_lit = VAR2LIT (qbf_var mapping) (LITSIGNBIT exp_lit)
           in if lit_in_clause qbf_lit qbf_clause
              then exp_lits_in_clause qbf_clause expansion rest
              else Inr False))"

text \<open>The second loop: the number of existentially quantified or free literals.\<close>

fun num_exist_qbf_lits :: "QBF \<Rightarrow> QBFClause \<Rightarrow> nat" where
  "num_exist_qbf_lits qbf [] = 0"
| "num_exist_qbf_lits qbf (l # ls) =
     (case prefix_mapping qbf (LIT2VAR l) of
        Some quant \<Rightarrow> (if quant_type quant = QUANT_TYPE_EXISTENTIAL then 1 else 0)
      | None \<Rightarrow> 1) + num_exist_qbf_lits qbf ls"

definition ferat_test_expansion_origin_in_QBF ::
  "QBFClause \<Rightarrow> ExpClause \<Rightarrow> QBF \<Rightarrow> Expansion \<Rightarrow> error + bool"
where
  "ferat_test_expansion_origin_in_QBF qbf_clause exp_clause qbf expansion =
     (case exp_lits_in_clause qbf_clause expansion exp_clause of
        Inl e \<Rightarrow> Inl e
      | Inr found \<Rightarrow>
          if \<not> found then Inr False
          else Inr (length exp_clause = num_exist_qbf_lits qbf qbf_clause))"

subsection \<open>The annotation test\<close>

text \<open>
  The search \<open>for (l = 0; ...) if (quant_qbf_var == LIT2VAR(qbf_clause->lits[l]))\<close>:
  the first literal of the clause over the variable, if there is one.
\<close>

fun find_var_in_clause :: "Variable \<Rightarrow> QBFClause \<Rightarrow> Literal option" where
  "find_var_in_clause quant_qbf_var [] = None"
| "find_var_in_clause quant_qbf_var (l # ls) =
     (if quant_qbf_var = LIT2VAR l then Some l else find_var_in_clause quant_qbf_var ls)"

text \<open>
  The working state of the annotation test: the sets \<open>U\<close> and \<open>V\<close> as sorted array
  lists and \<open>num_universal_vars_so_far\<close>.
\<close>

type_synonym UV = "Literal list \<times> Literal list \<times> nat"

text \<open>The loop over the variables of one universal quantifier.\<close>

fun add_quant_vars :: "QBFClause \<Rightarrow> Variable list \<Rightarrow> UV \<Rightarrow> UV" where
  "add_quant_vars qbf_clause [] s = s"
| "add_quant_vars qbf_clause (quant_qbf_var # rest) (U, V, n) =
     (case find_var_in_clause quant_qbf_var qbf_clause of
        None \<Rightarrow>
          add_quant_vars qbf_clause rest
            (U, allit_insert_sorted (allit_insert_sorted V (VAR2LIT quant_qbf_var 0))
                  (VAR2LIT quant_qbf_var 1), n + 1)
      | Some l \<Rightarrow>
          add_quant_vars qbf_clause rest (allit_insert_sorted U (LIT_NEG l), V, n + 1))"

text \<open>
  The loop \<open>for (j = last_quant_idx; j < curr_quant_idx; ++j)\<close>; \<open>alptr_get\<close> asserts
  that \<open>j\<close> is an index of the prefix.
\<close>

function add_quantifiers :: "QBF \<Rightarrow> QBFClause \<Rightarrow> nat \<Rightarrow> nat \<Rightarrow> UV \<Rightarrow> error + UV" where
  "add_quantifiers qbf qbf_clause j curr_quant_idx s =
     (if j < curr_quant_idx
      then (if j < length (prefix qbf)
            then (let quant = prefix qbf ! j
                  in if quant_type quant \<noteq> QUANT_TYPE_UNIVERSAL
                     then add_quantifiers qbf qbf_clause (j + 1) curr_quant_idx s
                     else add_quantifiers qbf qbf_clause (j + 1) curr_quant_idx
                            (add_quant_vars qbf_clause (variables quant) s))
            else Inl AssertionFailure)
      else Inr s)"
  by pat_completeness auto
termination
  by (relation "measure (\<lambda>(qbf, qbf_clause, j, curr, s). curr - j)") auto

declare add_quantifiers.simps [simp del]

definition annotation_in_UV :: "Literal list \<Rightarrow> Literal list \<Rightarrow> Literal list \<Rightarrow> bool" where
  "annotation_in_UV U V annotation_lits =
     list_all (\<lambda>lit. allit_binary_search_contains V lit \<or> allit_binary_search_contains U lit)
       annotation_lits"

fun remove_negations :: "Literal list \<Rightarrow> Literal list \<Rightarrow> Literal list" where
  "remove_negations V [] = V"
| "remove_negations V (a # rest) =
     remove_negations (remove_all_occurrences V (LIT_NEG a)) rest"

text \<open>
  The outer loop over the expansion literals not yet visited, with \<open>last_quant_idx\<close> and
  the working state.
\<close>

fun annotations_loop ::
  "QBFClause \<Rightarrow> QBF \<Rightarrow> Expansion \<Rightarrow> Literal list \<Rightarrow> nat \<Rightarrow> UV \<Rightarrow> error + bool"
where
  "annotations_loop qbf_clause qbf expansion [] last_quant_idx s = Inr True"
| "annotations_loop qbf_clause qbf expansion (exp_lit # rest) last_quant_idx s =
     (case exp_var_mappings expansion (LIT2VAR exp_lit) of
        None \<Rightarrow> Inl AssertionFailure
      | Some exp_var_mapping \<Rightarrow>
          (case prefix_mapping qbf (qbf_var exp_var_mapping) of
             None \<Rightarrow>
               if length (annotation exp_var_mapping) \<noteq> 0 then Inr False
               else annotations_loop qbf_clause qbf expansion rest last_quant_idx s
           | Some quant \<Rightarrow>
               (let curr_quant_idx = ordering quant
                in case add_quantifiers qbf qbf_clause last_quant_idx curr_quant_idx s of
                     Inl e \<Rightarrow> Inl e
                   | Inr (U, V, n) \<Rightarrow>
                       if length (annotation exp_var_mapping) \<noteq> n then Inr False
                       else if \<not> annotation_in_UV U V (annotation exp_var_mapping)
                       then Inr False
                       else annotations_loop qbf_clause qbf expansion rest curr_quant_idx
                              (U, remove_negations V (annotation exp_var_mapping), n))))"

text \<open>
  The two array lists passed in are cleared on entry and their contents are not read after
  the call, so they are not parameters of the model.
\<close>

definition ferat_check_annotations_against_expansion ::
  "QBFClause \<Rightarrow> ExpClause \<Rightarrow> QBF \<Rightarrow> Expansion \<Rightarrow> error + bool"
where
  "ferat_check_annotations_against_expansion qbf_clause exp_clause qbf expansion =
     annotations_loop qbf_clause qbf expansion exp_clause 0 ([], [], 0)"


subsection \<open>Checking one expansion clause\<close>

text \<open>
  The body of the loop over the matrix from the call of the existential-literal test on:
  \<open>None\<close> when the function returns (the clause is accepted), otherwise the new value
  of \<open>found_matching_clause\<close>.
\<close>

definition check_candidate ::
  "QBFClause \<Rightarrow> ExpClause \<Rightarrow> QBF \<Rightarrow> Expansion \<Rightarrow> bool \<Rightarrow> error + bool option"
where
  "check_candidate qbf_clause exp_clause qbf expansion found_matching_clause =
     (case ferat_test_expansion_origin_in_QBF qbf_clause exp_clause qbf expansion of
        Inl e \<Rightarrow> Inl e
      | Inr passed \<Rightarrow>
          if passed
          then (case ferat_check_annotations_against_expansion qbf_clause exp_clause qbf expansion of
                  Inl e \<Rightarrow> Inl e
                | Inr correct \<Rightarrow> if correct then Inr None else Inr (Some True))
          else Inr (Some found_matching_clause))"

text \<open>
  The loop \<open>for (size_t i = 0; i < qbf->matrix->size; ++i)\<close>. The local flag
  \<open>has_origins\<close> is true exactly when \<open>expansion->clause_origins\<close> is not \<open>NULL\<close>
  (both are reset together), so the model reads the pointer. \<open>al32_get\<close> asserts that
  its index is below the size of the list. The warning is output only.
\<close>

function matrix_loop ::
  "ExpClause \<Rightarrow> nat \<Rightarrow> QBF \<Rightarrow> nat \<Rightarrow> bool \<Rightarrow> Expansion \<Rightarrow> error + (Expansion \<times> bool option)"
where
  "matrix_loop exp_clause exp_clause_index qbf i found_matching_clause expansion =
     (if i < length (matrix qbf)
      then (case clause_origins expansion of
              Some origins \<Rightarrow>
                if i \<ge> length origins
                then matrix_loop exp_clause exp_clause_index qbf i found_matching_clause
                       (expansion\<lparr>clause_origins := None\<rparr>)
                else if \<not> exp_clause_index < length origins then Inl AssertionFailure
                else (let matrix_idx = origins ! exp_clause_index
                      in if matrix_idx \<ge> length (matrix qbf)
                         then Inl (Fatal EXIT_PARSING_FAILURE)
                         else (case check_candidate (matrix qbf ! matrix_idx) exp_clause qbf
                                      expansion found_matching_clause of
                                 Inl e \<Rightarrow> Inl e
                               | Inr None \<Rightarrow> Inr (expansion, None)
                               | Inr (Some found) \<Rightarrow> Inr (expansion, Some found)))
            | None \<Rightarrow>
                (case check_candidate (matrix qbf ! i) exp_clause qbf expansion
                        found_matching_clause of
                   Inl e \<Rightarrow> Inl e
                 | Inr None \<Rightarrow> Inr (expansion, None)
                 | Inr (Some found) \<Rightarrow>
                     matrix_loop exp_clause exp_clause_index qbf (i + 1) found expansion))
      else Inr (expansion, Some found_matching_clause))"
  by pat_completeness auto
termination
  by (relation "measures [\<lambda>(ec, idx, qbf, i, f, ex). length (matrix qbf) - i,
                          \<lambda>(ec, idx, qbf, i, f, ex). (if clause_origins ex = None then 0 else 1)]")
     auto

declare matrix_loop.simps [simp del]

definition ferat_check_expansion_clause ::
  "ExpClause \<Rightarrow> nat \<Rightarrow> Expansion \<Rightarrow> QBF \<Rightarrow> FERATCheckResult \<Rightarrow> error + (Expansion \<times> FERATCheckResult)"
where
  "ferat_check_expansion_clause exp_clause exp_clause_index expansion qbf result =
     (case matrix_loop exp_clause exp_clause_index qbf 0 False expansion of
        Inl e \<Rightarrow> Inl e
      | Inr (expansion', None) \<Rightarrow> Inr (expansion', result)
      | Inr (expansion', Some found_matching_clause) \<Rightarrow>
          Inr (expansion',
               if found_matching_clause
               then ferat_insert_check_result result FERAT_CHECK_RESULT_INCORRECT_ANNOTATION
                      exp_clause_index
               else ferat_insert_check_result result FERAT_CHECK_RESULT_INCORRECT_LITERALS
                      exp_clause_index))"

subsection \<open>Checking the expansion\<close>

text \<open>
  The loop of \<open>ferat_check\<close> over the clauses that \<open>expansion_yield_clause\<close> yields,
  given as a list, with the index \<open>i\<close> of the next clause.
\<close>

fun check_clauses ::
  "QBF \<Rightarrow> ExpClause list \<Rightarrow> nat \<Rightarrow> Expansion \<Rightarrow> FERATCheckResult \<Rightarrow>
     error + (Expansion \<times> FERATCheckResult)"
where
  "check_clauses qbf [] i expansion result = Inr (expansion, result)"
| "check_clauses qbf (exp_clause # rest) i expansion result =
     (case ferat_check_expansion_clause (iterative_inplace_quickort sort_identity exp_clause) i
             expansion qbf result of
        Inl e \<Rightarrow> Inl e
      | Inr (expansion', result') \<Rightarrow> check_clauses qbf rest (i + 1) expansion' result')"

text \<open>
  \<open>ferat_check\<close> returns its verdict; the model returns with it the result struct and
  the expansion as the call leaves them.
\<close>

definition ferat_check ::
  "FERATCheckResult \<Rightarrow> QBF \<Rightarrow> Expansion \<Rightarrow> ExpClause list \<Rightarrow>
     error + (bool \<times> Expansion \<times> FERATCheckResult)"
where
  "ferat_check result qbf expansion clauses =
     (case check_clauses qbf clauses 0 expansion result of
        Inl e \<Rightarrow> Inl e
      | Inr (expansion', result') \<Rightarrow> Inr (num_results result' = 0, expansion', result'))"

section \<open>Quantifier lines of the QBF parser (qbf.c)\<close>

text \<open>
  The part of the state of \<open>qbf_parse\<close> that a quantifier line reads and writes. While
  the prefix is parsed, \<open>prefix_mapping\<close> holds pointers to \<open>Quantifier\<close> structs; a
  struct is named here by its \<open>ordering\<close>, which is different for every allocation.
\<close>

record QuantifierParse =
  parse_max_var :: "32 word"
  parse_num_alternations :: "32 word"
  parse_prefix_mapping :: "Variable \<rightharpoonup> nat"
  parse_prefix :: "Quantifier list"
  saw_quantifier :: bool
  last_is_existential :: bool
  quantifier_index :: nat

text \<open>
  The loop \<open>for (i = 0; i < quantifier_variables->size;)\<close>, with \<open>quantifier->num_vars\<close>,
  the entries \<open>quantifier->variables[0 .. i - 1]\<close> written so far, the prefix mapping,
  \<open>qbf->max_var\<close> and the struct being filled. \<open>num_vars\<close> is at least 1 whenever it is
  decremented, so the subtraction does not wrap.
\<close>

function quantifier_variables_loop ::
  "Variable list \<Rightarrow> nat \<Rightarrow> nat \<Rightarrow> Variable list \<Rightarrow> (Variable \<rightharpoonup> nat) \<Rightarrow> 32 word \<Rightarrow> nat \<Rightarrow>
     nat \<times> Variable list \<times> (Variable \<rightharpoonup> nat) \<times> 32 word"
where
  "quantifier_variables_loop quantifier_variables i num_vars vars pm mv quantifier =
     (if i < length quantifier_variables
      then (let qbf_var = quantifier_variables ! i
            in if pm qbf_var \<noteq> None
               then (if num_vars - 1 = 0 then (num_vars - 1, vars, pm, mv)
                     else quantifier_variables_loop quantifier_variables i (num_vars - 1)
                            vars pm mv quantifier)
               else quantifier_variables_loop quantifier_variables (i + 1) num_vars
                      (vars @ [qbf_var]) (pm(qbf_var \<mapsto> quantifier))
                      (if qbf_var > mv then qbf_var else mv) quantifier)
      else (num_vars, vars, pm, mv))"
  by pat_completeness auto
termination
  by (relation "measure (\<lambda>(qv, i, num_vars, vars, pm, mv, q). (length qv - i) + num_vars)") auto

declare quantifier_variables_loop.simps [simp del]

text \<open>
  The case \<open>PARSE_STATE_QUANTIFIER\<close> from the variable list that
  \<open>expect_variable_list\<close> returned on: \<open>is_existential\<close> tells an \<open>e\<close> line from an
  \<open>a\<close> line.
\<close>

definition parse_quantifier_line ::
  "bool \<Rightarrow> Variable list \<Rightarrow> QuantifierParse \<Rightarrow> QuantifierParse"
where
  "parse_quantifier_line is_existential quantifier_variables st =
     (let quantifier = quantifier_index st;
          r = quantifier_variables_loop quantifier_variables 0 (length quantifier_variables) []
                (parse_prefix_mapping st) (parse_max_var st) quantifier;
          num_vars = fst r;
          vars = fst (snd r);
          st1 = st\<lparr>quantifier_index := quantifier + 1,
                   parse_prefix_mapping := fst (snd (snd r)),
                   parse_max_var := snd (snd (snd r))\<rparr>
      in if num_vars = 0 then st1
         else st1\<lparr>parse_num_alternations :=
                     (if saw_quantifier st \<and> last_is_existential st \<noteq> is_existential
                      then parse_num_alternations st + 1 else parse_num_alternations st),
                   saw_quantifier := True,
                   last_is_existential := is_existential,
                   parse_prefix := parse_prefix st @
                     [\<lparr>quant_type = (if is_existential then QUANT_TYPE_EXISTENTIAL
                                      else QUANT_TYPE_UNIVERSAL),
                       ordering = quantifier, variables = vars\<rparr>]\<rparr>)"


section \<open>Notions used in the statements\<close>

text \<open>A literal of a QBF clause counts as existential when its variable is bound by an
  existential quantifier or is free.\<close>

definition exist_or_free :: "QBF \<Rightarrow> Literal \<Rightarrow> bool" where
  "exist_or_free qbf l =
     (case prefix_mapping qbf (LIT2VAR l) of
        None \<Rightarrow> True
      | Some quant \<Rightarrow> quant_type quant = QUANT_TYPE_EXISTENTIAL)"

text \<open>An expansion literal is mapped when its variable has a record in the mappings table;
  its counterpart is the QBF literal over the mapped variable with the same sign bit.\<close>

definition mapped :: "Expansion \<Rightarrow> Literal \<Rightarrow> bool" where
  "mapped expansion e = (exp_var_mappings expansion (LIT2VAR e) \<noteq> None)"

definition counterpart :: "Expansion \<Rightarrow> Literal \<Rightarrow> Literal" where
  "counterpart expansion e =
     VAR2LIT (qbf_var (the (exp_var_mappings expansion (LIT2VAR e)))) (LITSIGNBIT e)"

definition all_mapped :: "Expansion \<Rightarrow> ExpClause \<Rightarrow> bool" where
  "all_mapped expansion exp_clause =
     (\<forall>e \<in> set exp_clause. exp_var_mappings expansion (LIT2VAR e) \<noteq> None)"

text \<open>Every quantifier that the prefix mapping points to has an ordering within the
  prefix, so that the annotation test never indexes the prefix out of range.\<close>

definition orderings_in_prefix :: "QBF \<Rightarrow> bool" where
  "orderings_in_prefix qbf =
     (\<forall>v quant. prefix_mapping qbf v = Some quant \<longrightarrow> ordering quant \<le> length (prefix qbf))"

definition passes_existential_test :: "QBF \<Rightarrow> Expansion \<Rightarrow> ExpClause \<Rightarrow> QBFClause \<Rightarrow> bool" where
  "passes_existential_test qbf expansion exp_clause qbf_clause =
     (ferat_test_expansion_origin_in_QBF qbf_clause exp_clause qbf expansion = Inr True)"

definition passes_annotation_test :: "QBF \<Rightarrow> Expansion \<Rightarrow> ExpClause \<Rightarrow> QBFClause \<Rightarrow> bool" where
  "passes_annotation_test qbf expansion exp_clause qbf_clause =
     (ferat_check_annotations_against_expansion qbf_clause exp_clause qbf expansion = Inr True)"

text \<open>A QBF clause rejects an expansion clause before its first unmapped literal when one
  of the mapped literals in front of that literal has no counterpart in the QBF clause.\<close>

definition rejects_before_unmapped :: "Expansion \<Rightarrow> ExpClause \<Rightarrow> QBFClause \<Rightarrow> bool" where
  "rejects_before_unmapped expansion exp_clause qbf_clause =
     (\<exists>e \<in> set (takeWhile (mapped expansion) exp_clause).
        counterpart expansion e \<notin> set qbf_clause)"

text \<open>
  The first formula of the checker tests: the prefix \<open>a 1 0\<close>, \<open>e 2 3 0\<close> and the
  clause \<open>1 2 3 0\<close>, with the expansion variables 1 and 2 mapped to the QBF variables
  2 and 3 under the given annotation.
\<close>

definition example_qbf :: QBF where
  "example_qbf = \<lparr>max_var = 3, num_alternations = 1,
     prefix_mapping =
       [1 \<mapsto> \<lparr>quant_type = QUANT_TYPE_UNIVERSAL, ordering = 0, variables = [1]\<rparr>,
        2 \<mapsto> \<lparr>quant_type = QUANT_TYPE_EXISTENTIAL, ordering = 1, variables = [2, 3]\<rparr>,
        3 \<mapsto> \<lparr>quant_type = QUANT_TYPE_EXISTENTIAL, ordering = 1, variables = [2, 3]\<rparr>],
     prefix = [\<lparr>quant_type = QUANT_TYPE_UNIVERSAL, ordering = 0, variables = [1]\<rparr>,
               \<lparr>quant_type = QUANT_TYPE_EXISTENTIAL, ordering = 1, variables = [2, 3]\<rparr>],
     matrix = [[2, 4, 6]]\<rparr>"

definition example_expansion :: "Literal list \<Rightarrow> nat list option \<Rightarrow> Expansion" where
  "example_expansion annotation_lits origins =
     \<lparr>p_max_var = 2, p_num_clauses = 1, clause_origins = origins,
      exp_var_mappings =
        [1 \<mapsto> \<lparr>qbf_var = 2, exp_var = 1, annotation = annotation_lits\<rparr>,
         2 \<mapsto> \<lparr>qbf_var = 3, exp_var = 2, annotation = annotation_lits\<rparr>]\<rparr>"

text \<open>The state of the quantifier part of \<open>qbf_parse\<close> before the first line.\<close>

definition quantifier_parse_start :: QuantifierParse where
  "quantifier_parse_start =
     \<lparr>parse_max_var = 0, parse_num_alternations = 0, parse_prefix_mapping = Map.empty,
      parse_prefix = [], saw_quantifier = False, last_is_existential = False,
      quantifier_index = 0\<rparr>"

text \<open>
  \<open>permuted_within low high vs vs'\<close>: the array \<open>vs'\<close> is \<open>vs\<close> with the entries at
  the positions \<open>low .. high\<close> rearranged among themselves.
\<close>

definition permuted_within :: "nat \<Rightarrow> nat \<Rightarrow> 32 word list \<Rightarrow> 32 word list \<Rightarrow> bool" where
  "permuted_within low high vs vs' =
     (length vs' = length vs \<and> mset vs' = mset vs
      \<and> (\<forall>p. p < low \<or> high < p \<longrightarrow> vs' ! p = vs ! p)
      \<and> (\<forall>p. low \<le> p \<and> p \<le> high \<longrightarrow> (\<exists>p'. low \<le> p' \<and> p' \<le> high \<and> vs' ! p = vs ! p')))"

text \<open>
  The invariant of the \<open>while\<close> loop of the quicksort: the ranges on the stack are
  non-trivial, inside the array and pairwise disjoint, and any two positions that do not
  lie in one range of the stack are already in key order.
\<close>

fun disjoint_ranges :: "(nat \<times> nat) list \<Rightarrow> bool" where
  "disjoint_ranges [] = True"
| "disjoint_ranges ((low, high) # stack) =
     ((\<forall>(low', high') \<in> set stack. high < low' \<or> high' < low) \<and> disjoint_ranges stack)"

definition in_same_range :: "(nat \<times> nat) list \<Rightarrow> nat \<Rightarrow> nat \<Rightarrow> bool" where
  "in_same_range stack a b = (\<exists>(low, high) \<in> set stack. low \<le> a \<and> b \<le> high)"

definition quicksort_invariant ::
  "(32 word \<Rightarrow> 'k::linorder) \<Rightarrow> (nat \<times> nat) list \<Rightarrow> 32 word list \<Rightarrow> bool"
where
  "quicksort_invariant key stack vs =
     ((\<forall>(low, high) \<in> set stack. low < high \<and> high < length vs)
      \<and> disjoint_ranges stack
      \<and> (\<forall>a b. a < b \<and> b < length vs \<longrightarrow>
             key (vs ! a) \<le> key (vs ! b) \<or> in_same_range stack a b))"

text \<open>A formula with the prefix \<open>e 1 2 0\<close> and the clause \<open>2 1 0\<close>.\<close>

definition tie_qbf :: QBF where
  "tie_qbf = \<lparr>max_var = 2, num_alternations = 0,
     prefix_mapping =
       [1 \<mapsto> \<lparr>quant_type = QUANT_TYPE_EXISTENTIAL, ordering = 0, variables = [1, 2]\<rparr>,
        2 \<mapsto> \<lparr>quant_type = QUANT_TYPE_EXISTENTIAL, ordering = 0, variables = [1, 2]\<rparr>],
     prefix = [\<lparr>quant_type = QUANT_TYPE_EXISTENTIAL, ordering = 0, variables = [1, 2]\<rparr>],
     matrix = [[4, 2]]\<rparr>"

text \<open>
  The variables of the universal quantifiers at the prefix positions \<open>a\<close> up to, but
  not including, \<open>b\<close>, in prefix order; \<open>universal_vars_before\<close> starts at the first block.
\<close>

definition universal_vars_between :: "QBF \<Rightarrow> nat \<Rightarrow> nat \<Rightarrow> Variable list" where
  "universal_vars_between qbf a b =
     concat (map variables
       (filter (\<lambda>quant. quant_type quant = QUANT_TYPE_UNIVERSAL)
          (take (b - a) (drop a (prefix qbf)))))"

definition universal_vars_before :: "QBF \<Rightarrow> nat \<Rightarrow> Variable list" where
  "universal_vars_before qbf n = universal_vars_between qbf 0 n"

text \<open>
  The literal of a clause that the annotation test finds for a variable: the first one in
  the clause whose variable it is.
\<close>

definition first_literal_over :: "QBFClause \<Rightarrow> Variable \<Rightarrow> Literal \<Rightarrow> bool" where
  "first_literal_over Q u l =
     (\<exists>j < length Q. Q ! j = l \<and> LIT2VAR l = u \<and> (\<forall>i < j. LIT2VAR (Q ! i) \<noteq> u))"

text \<open>
  Two readings of what the given universal variables contribute to \<open>U\<close>.
  \<open>negated_first_literals\<close>: for each of them that occurs in the clause, the negation
  of the first literal of the clause over it. \<open>negated_all_literals\<close>, in the words
  of the specification: the negation of each literal of the clause over one of them. The
  two differ only for a clause that holds a literal together with its negation.
\<close>

definition negated_first_literals :: "QBFClause \<Rightarrow> Variable list \<Rightarrow> Literal set" where
  "negated_first_literals Q vars =
     {LIT_NEG l | l. \<exists>u \<in> set vars. first_literal_over Q u l}"

definition negated_all_literals :: "QBFClause \<Rightarrow> Variable list \<Rightarrow> Literal set" where
  "negated_all_literals Q vars = LIT_NEG ` {l \<in> set Q. LIT2VAR l \<in> set vars}"

definition no_complementary_literals :: "QBFClause \<Rightarrow> bool" where
  "no_complementary_literals Q = (\<forall>l \<in> set Q. LIT_NEG l \<notin> set Q)"

text \<open>
  What the given universal variables contribute to \<open>V\<close>: both polarities of each of
  them that does not occur in the clause.
\<close>

definition both_polarities :: "QBFClause \<Rightarrow> Variable list \<Rightarrow> Literal set" where
  "both_polarities Q vars =
     {VAR2LIT u s | u s. u \<in> set vars \<and> (\<forall>l \<in> set Q. LIT2VAR l \<noteq> u) \<and> (s = 0 \<or> s = 1)}"

text \<open>
  The quantifier ordering of the QBF variable that an expansion literal is mapped to, 0
  when that variable is free.
\<close>

definition mapped_ordering :: "QBF \<Rightarrow> Expansion \<Rightarrow> Literal \<Rightarrow> nat" where
  "mapped_ordering qbf expansion e =
     (case prefix_mapping qbf (qbf_var (the (exp_var_mappings expansion (LIT2VAR e)))) of
        None \<Rightarrow> 0
      | Some quant \<Rightarrow> ordering quant)"

text \<open>
  The annotation condition, processing the expansion literals in order, for a reading
  \<open>U_of\<close> of the set \<open>U\<close>. \<open>reached\<close> is the prefix position up to which
  universal blocks have been entered into \<open>V\<close>, and \<open>V\<close> is the current content
  of that set. For a bound literal the annotation has as many literals as there are
  universal variables in the blocks at the prefix positions below the ordering of its
  quantifier, each annotation literal lies in \<open>U \<union> V\<close>, and the negations of the
  annotation literals leave \<open>V\<close> afterwards; for a free literal the annotation is
  empty.
\<close>

fun annotations_admissible ::
  "(QBFClause \<Rightarrow> Variable list \<Rightarrow> Literal set) \<Rightarrow> QBF \<Rightarrow> Expansion \<Rightarrow> QBFClause \<Rightarrow>
     Literal list \<Rightarrow> nat \<Rightarrow> Literal set \<Rightarrow> bool"
where
  "annotations_admissible U_of qbf expansion Q [] reached V = True"
| "annotations_admissible U_of qbf expansion Q (e # es) reached V =
     (case prefix_mapping qbf (qbf_var (the (exp_var_mappings expansion (LIT2VAR e)))) of
        None \<Rightarrow>
          annotation (the (exp_var_mappings expansion (LIT2VAR e))) = []
          \<and> annotations_admissible U_of qbf expansion Q es reached V
      | Some quant \<Rightarrow>
          length (annotation (the (exp_var_mappings expansion (LIT2VAR e))))
            = length (universal_vars_before qbf (ordering quant))
          \<and> set (annotation (the (exp_var_mappings expansion (LIT2VAR e))))
              \<subseteq> U_of Q (universal_vars_before qbf (ordering quant))
                \<union> (V \<union> both_polarities Q
                           (universal_vars_between qbf reached (ordering quant)))
          \<and> annotations_admissible U_of qbf expansion Q es (ordering quant)
              ((V \<union> both_polarities Q (universal_vars_between qbf reached (ordering quant)))
                 - LIT_NEG ` set (annotation (the (exp_var_mappings expansion (LIT2VAR e))))))"

text \<open>
  Acceptance of an expansion clause in iterative mode and under an origin map.
\<close>

definition some_clause_passes :: "QBF \<Rightarrow> Expansion \<Rightarrow> ExpClause \<Rightarrow> bool" where
  "some_clause_passes qbf expansion exp_clause =
     (\<exists>Q \<in> set (matrix qbf). passes_existential_test qbf expansion exp_clause Q
                               \<and> passes_annotation_test qbf expansion exp_clause Q)"

definition origin_clause_passes :: "QBF \<Rightarrow> Expansion \<Rightarrow> nat list \<Rightarrow> ExpClause \<Rightarrow> nat \<Rightarrow> bool" where
  "origin_clause_passes qbf expansion origins exp_clause k =
     (passes_existential_test qbf expansion exp_clause (matrix qbf ! (origins ! k))
      \<and> passes_annotation_test qbf expansion exp_clause (matrix qbf ! (origins ! k)))"

text \<open>
  The origin map of a well-formed expansion gives, for every expansion clause, the index
  of its source clause in the matrix. \<open>origins_in_range\<close>: the map has an entry for
  every expansion clause and every entry is an index of the matrix.
  \<open>origins_faithful\<close>: the entry of an expansion clause names a clause that the
  expansion clause is an expansion of (it passes both tests against it), if the matrix
  has such a clause at all.
\<close>

definition origins_in_range :: "QBF \<Rightarrow> nat list \<Rightarrow> ExpClause list \<Rightarrow> bool" where
  "origins_in_range qbf origins clauses =
     (length clauses \<le> length origins
      \<and> (\<forall>k < length clauses. origins ! k < length (matrix qbf)))"

definition origins_faithful :: "QBF \<Rightarrow> Expansion \<Rightarrow> nat list \<Rightarrow> ExpClause list \<Rightarrow> bool" where
  "origins_faithful qbf expansion origins clauses =
     (\<forall>k < length clauses.
        some_clause_passes qbf expansion (iterative_inplace_quickort sort_identity (clauses ! k))
          \<longrightarrow> origin_clause_passes qbf expansion origins
                (iterative_inplace_quickort sort_identity (clauses ! k)) k)"

text \<open>
  The example formula with a second clause \<open>-1 2 3 0\<close>.
\<close>

definition two_clause_qbf :: QBF where
  "two_clause_qbf = example_qbf\<lparr>matrix := [[2, 4, 6], [3, 4, 6]]\<rparr>"

text \<open>
  The formula with the quantifier lines \<open>e 1 0\<close>, \<open>e 1 0\<close>, \<open>e 1 0\<close>,
  \<open>e 2 0\<close> and the clause \<open>2 0\<close>. The second and the third line only repeat a bound
  variable and are discarded, but each of them takes a quantifier index: the block of
  variable 2 has the ordering 3 in a prefix of two blocks. The expansion maps its
  variable 1 to the QBF variable 2 under the empty annotation.
\<close>

definition gap_qbf :: QBF where
  "gap_qbf = \<lparr>max_var = 2, num_alternations = 0,
     prefix_mapping =
       [1 \<mapsto> \<lparr>quant_type = QUANT_TYPE_EXISTENTIAL, ordering = 0, variables = [1]\<rparr>,
        2 \<mapsto> \<lparr>quant_type = QUANT_TYPE_EXISTENTIAL, ordering = 3, variables = [2]\<rparr>],
     prefix = [\<lparr>quant_type = QUANT_TYPE_EXISTENTIAL, ordering = 0, variables = [1]\<rparr>,
               \<lparr>quant_type = QUANT_TYPE_EXISTENTIAL, ordering = 3, variables = [2]\<rparr>],
     matrix = [[4]]\<rparr>"

definition gap_expansion :: Expansion where
  "gap_expansion =
     \<lparr>p_max_var = 1, p_num_clauses = 1, clause_origins = None,
      exp_var_mappings = [1 \<mapsto> \<lparr>qbf_var = 2, exp_var = 1, annotation = []\<rparr>]\<rparr>"

section \<open>Properties of the lexical primitives\<close>

lemma expect_number_loop_no_digit:
  "digit_value (la p) = None \<Longrightarrow> expect_number_loop p num = (num, p)"
  by (simp add: expect_number_loop.simps)

text \<open>
  Claim C10. \<open>expect_number\<close> ends the process (with exit code 80) exactly when
  \<open>expect_positive\<close> is set and the look-ahead byte after the skipped white space is
  \<open>-\<close>; otherwise it returns. When that byte is neither \<open>-\<close> nor a decimal digit, it
  returns 0 and leaves the parser as \<open>skip_white\<close> left it, so
  \<open>expect_number_literal\<close> with literal 0 accepts an absent token.
\<close>

theorem expect_number_fatal_only_on_minus:
  "((\<exists>e. expect_number p expect_positive = Inl e) \<longleftrightarrow>
      (expect_positive \<and> la (snd (skip_white p)) = CHR ''-''))
   \<and> (\<forall>e. expect_number p expect_positive = Inl e \<longrightarrow> e = Fatal 80)
   \<and> (la (snd (skip_white p)) \<noteq> CHR ''-'' \<and> digit_value (la (snd (skip_white p))) = None \<longrightarrow>
        expect_number p expect_positive = Inr (0, snd (skip_white p))
        \<and> expect_number_literal p 0 = Inr (0, snd (skip_white p)))"
  by (auto simp: expect_number_def expect_number_literal_def Let_def EXIT_PARSING_FAILURE_def
        expect_number_loop_no_digit)

text \<open>
  The header line \<open>p cnf 1 0\<close> of the parsing tests, after \<open>p cnf 1 0\<close> has been
  read with a blank before the end of the line: the terminating \<open>0\<close> is absent and
  \<open>expect_number_literal\<close> returns 0, having consumed the blank only.
\<close>

theorem expect_number_fatal_only_on_minus_witness:
  "la (snd (skip_white
      \<lparr>stream = [CHR 0x0A, CHR ''e''], eof = False, silent = True, line = 1, col = 10,
       prev = CHR ''0'', la = CHR '' '', state = PARSE_STATE_PROBLEM\<rparr>)) \<noteq> CHR ''-''
   \<and> digit_value (la (snd (skip_white
      \<lparr>stream = [CHR 0x0A, CHR ''e''], eof = False, silent = True, line = 1, col = 10,
       prev = CHR ''0'', la = CHR '' '', state = PARSE_STATE_PROBLEM\<rparr>))) = None
   \<and> expect_number_literal
      \<lparr>stream = [CHR 0x0A, CHR ''e''], eof = False, silent = True, line = 1, col = 10,
       prev = CHR ''0'', la = CHR '' '', state = PARSE_STATE_PROBLEM\<rparr> 0
     = Inr (0, \<lparr>stream = [CHR ''e''], eof = False, silent = True, line = 1, col = 11,
       prev = CHR '' '', la = CHR 0x0A, state = PARSE_STATE_PROBLEM\<rparr>)"
  using expect_number_fatal_only_on_minus[of
      "\<lparr>stream = [CHR 0x0A, CHR ''e''], eof = False, silent = True, line = 1, col = 10,
       prev = CHR ''0'', la = CHR '' '', state = PARSE_STATE_PROBLEM\<rparr>" False]
  by (simp add: skip_white_def is_white_def digit_value_def skip_white_loop.simps
        read_one_char_def)

section \<open>Properties of the existential-literal test\<close>

lemma lit_in_clause_iff: "lit_in_clause qbf_lit qbf_clause \<longleftrightarrow> qbf_lit \<in> set qbf_clause"
  by (induction qbf_clause) auto

lemma exp_lits_in_clause_mapped:
  "\<forall>e \<in> set E. exp_var_mappings expansion (LIT2VAR e) \<noteq> None \<Longrightarrow>
   exp_lits_in_clause Q expansion E =
     Inr (\<forall>e \<in> set E. VAR2LIT (qbf_var (the (exp_var_mappings expansion (LIT2VAR e))))
                          (LITSIGNBIT e) \<in> set Q)"
  by (induction E) (auto simp: lit_in_clause_iff Let_def)

lemma num_exist_qbf_lits_filter:
  "num_exist_qbf_lits qbf Q = length (filter (exist_or_free qbf) Q)"
  by (induction Q) (auto simp: exist_or_free_def split: option.splits)

text \<open>
  Claim C1. When every literal of the expansion clause has a mapping record, the
  existential-literal test returns true exactly when (a) the counterpart of every
  expansion literal occurs in the QBF clause and (b) the expansion clause has as many
  literals as the QBF clause has literals over existentially quantified or free
  variables. Universal literals of the QBF clause play no part.
\<close>

theorem existential_test_characterisation:
  assumes "all_mapped expansion exp_clause"
  shows "ferat_test_expansion_origin_in_QBF qbf_clause exp_clause qbf expansion =
     Inr ((\<forall>e \<in> set exp_clause.
              \<exists>j < length qbf_clause.
                qbf_clause ! j =
                  VAR2LIT (qbf_var (the (exp_var_mappings expansion (LIT2VAR e))))
                    (LITSIGNBIT e))
          \<and> length exp_clause = length (filter (exist_or_free qbf) qbf_clause))"
  using exp_lits_in_clause_mapped[OF assms[unfolded all_mapped_def], of qbf_clause]
  by (auto simp: ferat_test_expansion_origin_in_QBF_def num_exist_qbf_lits_filter in_set_conv_nth)

theorem existential_test_characterisation_witness:
  "all_mapped (example_expansion [3] None) [2, 4]
   \<and> ferat_test_expansion_origin_in_QBF [2, 4, 6] [2, 4] example_qbf
        (example_expansion [3] None) = Inr True
   \<and> all_mapped (example_expansion [3] None) [2]
   \<and> ferat_test_expansion_origin_in_QBF [2, 4, 6] [2] example_qbf
        (example_expansion [3] None) = Inr False"
proof -
  have pos: "(\<exists>j < length [2, 4, 6 :: Literal]. [2, 4, 6 :: Literal] ! j = 4)
           \<and> (\<exists>j < length [2, 4, 6 :: Literal]. [2, 4, 6 :: Literal] ! j = 6)"
    unfolding in_set_conv_nth[symmetric] by simp
  have m1: "all_mapped (example_expansion [3] None) [2, 4]"
    and m2: "all_mapped (example_expansion [3] None) [2]"
    by (simp_all add: all_mapped_def example_expansion_def LIT2VAR_def)
  show ?thesis
    using existential_test_characterisation[OF m1, of "[2, 4, 6]" example_qbf]
      existential_test_characterisation[OF m2, of "[2, 4, 6]" example_qbf] pos m1 m2
    by (simp add: example_expansion_def example_qbf_def LIT2VAR_def VAR2LIT_def LITSIGNBIT_def
          exist_or_free_def)
qed

section \<open>Properties of the clause check\<close>

lemma test_returns:
  "all_mapped expansion E \<Longrightarrow> \<exists>b. ferat_test_expansion_origin_in_QBF Q E qbf expansion = Inr b"
  using exp_lits_in_clause_mapped[of E expansion Q]
  by (auto simp: ferat_test_expansion_origin_in_QBF_def all_mapped_def)

lemma add_quantifiers_returns:
  "cq \<le> length (prefix qbf) \<Longrightarrow> \<exists>s'. add_quantifiers qbf Q j cq s = Inr s'"
proof (induction qbf Q j cq s rule: add_quantifiers.induct)
  case (1 qbf Q j cq s)
  show ?case
  proof (cases "j < cq")
    case False
    then show ?thesis by (cases s) (simp add: add_quantifiers.simps)
  next
    case True
    with "1.prems" have jl: "j < length (prefix qbf)" by simp
    show ?thesis
    proof (cases "quant_type (prefix qbf ! j) \<noteq> QUANT_TYPE_UNIVERSAL")
      case ne: True
      from "1.IH"(1)[OF True jl refl ne "1.prems"] True jl ne show ?thesis
        by (subst add_quantifiers.simps) (simp add: Let_def)
    next
      case u: False
      from "1.IH"(2)[OF True jl refl u "1.prems"] True jl u show ?thesis
        by (subst add_quantifiers.simps) (simp add: Let_def)
    qed
  qed
qed

lemma annotations_loop_returns:
  "all_mapped expansion E \<Longrightarrow> orderings_in_prefix qbf \<Longrightarrow>
     \<exists>b. annotations_loop Q qbf expansion E lq s = Inr b"
proof (induction E arbitrary: lq s)
  case Nil
  show ?case by auto
next
  case (Cons e E)
  from Cons.prems(1) obtain m where m: "exp_var_mappings expansion (LIT2VAR e) = Some m"
    and rest: "all_mapped expansion E"
    by (auto simp: all_mapped_def)
  show ?case
  proof (cases "prefix_mapping qbf (qbf_var m)")
    case None
    with m Cons.IH[OF rest Cons.prems(2)] show ?thesis by auto
  next
    case (Some quant)
    with Cons.prems(2) have "ordering quant \<le> length (prefix qbf)"
      by (auto simp: orderings_in_prefix_def)
    from add_quantifiers_returns[OF this, of Q lq s]
    obtain U V n where aq: "add_quantifiers qbf Q lq (ordering quant) s = Inr (U, V, n)"
      by (metis prod_cases3)
    from Cons.IH[OF rest Cons.prems(2), of "ordering quant" "(U, remove_negations V (annotation m), n)"]
    show ?thesis using m Some aq by (auto simp: Let_def)
  qed
qed

lemma annotation_test_returns:
  "all_mapped expansion E \<Longrightarrow> orderings_in_prefix qbf \<Longrightarrow>
     \<exists>b. ferat_check_annotations_against_expansion Q E qbf expansion = Inr b"
  unfolding ferat_check_annotations_against_expansion_def by (rule annotations_loop_returns)

lemma check_candidate_cases:
  assumes "all_mapped expansion E" and "orderings_in_prefix qbf"
  shows "check_candidate Q E qbf expansion found =
     Inr (if passes_existential_test qbf expansion E Q
          then (if passes_annotation_test qbf expansion E Q then None else Some True)
          else Some found)"
  using test_returns[OF assms(1), of Q qbf] annotation_test_returns[OF assms, of Q]
  by (auto simp: check_candidate_def passes_existential_test_def passes_annotation_test_def)

lemma matrix_loop_iterative:
  assumes "clause_origins expansion = None" and "all_mapped expansion E"
    and "orderings_in_prefix qbf"
  shows "matrix_loop E idx qbf i found expansion =
     Inr (expansion,
          if \<exists>Q \<in> set (drop i (matrix qbf)).
               passes_existential_test qbf expansion E Q \<and> passes_annotation_test qbf expansion E Q
          then None
          else Some (found \<or> (\<exists>Q \<in> set (drop i (matrix qbf)).
                                passes_existential_test qbf expansion E Q)))"
  using assms
proof (induction "length (matrix qbf) - i" arbitrary: i found)
  case 0
  then show ?case by (subst matrix_loop.simps) simp
next
  case (Suc k)
  then have i: "i < length (matrix qbf)" by simp
  have k: "k = length (matrix qbf) - (i + 1)" using Suc.hyps(2) by simp
  have dr: "drop i (matrix qbf) = (matrix qbf ! i) # drop (i + 1) (matrix qbf)"
    using i by (simp add: Cons_nth_drop_Suc)
  note cc = check_candidate_cases[OF Suc.prems(2,3), of "matrix qbf ! i" found]
  note IH = Suc.hyps(1)[OF k Suc.prems]
  show ?case
    apply (subst matrix_loop.simps)
    using i Suc.prems(1) cc IH
    by (auto simp: dr)
qed

lemma exp_lits_in_clause_unmapped:
  "\<not> all_mapped expansion E \<Longrightarrow>
   exp_lits_in_clause Q expansion E =
     (if rejects_before_unmapped expansion E Q then Inr False else Inl AssertionFailure)"
proof (induction E)
  case Nil
  then show ?case by (simp add: all_mapped_def)
next
  case (Cons e E)
  show ?case
  proof (cases "exp_var_mappings expansion (LIT2VAR e)")
    case None
    then show ?thesis by (simp add: rejects_before_unmapped_def mapped_def)
  next
    case (Some m)
    with Cons.prems have "\<not> all_mapped expansion E" by (simp add: all_mapped_def)
    from Cons.IH[OF this] Some show ?thesis
      by (auto simp: rejects_before_unmapped_def mapped_def counterpart_def lit_in_clause_iff Let_def)
  qed
qed

lemma check_candidate_unmapped:
  "\<not> all_mapped expansion E \<Longrightarrow>
   check_candidate Q E qbf expansion found =
     (if rejects_before_unmapped expansion E Q then Inr (Some found) else Inl AssertionFailure)"
  by (simp add: check_candidate_def ferat_test_expansion_origin_in_QBF_def
        exp_lits_in_clause_unmapped)

lemma matrix_loop_iterative_unmapped:
  assumes "clause_origins expansion = None" and "\<not> all_mapped expansion E"
  shows "matrix_loop E idx qbf i found expansion =
     (if \<forall>Q \<in> set (drop i (matrix qbf)). rejects_before_unmapped expansion E Q
      then Inr (expansion, Some found) else Inl AssertionFailure)"
  using assms
proof (induction "length (matrix qbf) - i" arbitrary: i found)
  case 0
  then show ?case by (subst matrix_loop.simps) simp
next
  case (Suc k)
  then have i: "i < length (matrix qbf)" by simp
  have k: "k = length (matrix qbf) - (i + 1)" using Suc.hyps(2) by simp
  have dr: "drop i (matrix qbf) = (matrix qbf ! i) # drop (i + 1) (matrix qbf)"
    using i by (simp add: Cons_nth_drop_Suc)
  note cc = check_candidate_unmapped[OF Suc.prems(2), of "matrix qbf ! i" qbf found]
  note IH = Suc.hyps(1)[OF k Suc.prems]
  show ?case
    apply (subst matrix_loop.simps)
    using i Suc.prems(1) cc IH
    by (auto simp: dr)
qed

lemma matrix_loop_unmapped_never_accepts:
  "\<not> all_mapped expansion E \<Longrightarrow>
     (\<exists>err. matrix_loop E idx qbf i False expansion = Inl err)
     \<or> (\<exists>expansion'. matrix_loop E idx qbf i False expansion = Inr (expansion', Some False))"
proof (induction E idx qbf i "False" expansion rule: matrix_loop.induct)
  case (1 E idx qbf i expansion)
  have am: "\<not> all_mapped (expansion\<lparr>clause_origins := None\<rparr>) E"
    using "1.prems" by (simp add: all_mapped_def)
  show ?case
  proof (cases "i < length (matrix qbf)")
    case False
    then show ?thesis by (subst (1 2) matrix_loop.simps) simp
  next
    case True
    show ?thesis
    proof (cases "clause_origins expansion")
      case None
      then show ?thesis
        using matrix_loop_iterative_unmapped[OF None "1.prems", of idx qbf i False] by auto
    next
      case (Some origins)
      show ?thesis
      proof (cases "i \<ge> length origins")
        case ge: True
        have "matrix_loop E idx qbf i False expansion =
              matrix_loop E idx qbf i False (expansion\<lparr>clause_origins := None\<rparr>)"
          using True Some ge by (subst matrix_loop.simps) simp
        with "1.hyps"(2)[OF True Some ge am] show ?thesis by simp
      next
        case lt: False
        show ?thesis
          apply (subst (1 2) matrix_loop.simps)
          using True Some lt check_candidate_unmapped[OF "1.prems", of _ qbf False]
          by (auto simp: Let_def)
      qed
    qed
  qed
qed

lemmas checker_eval =
  example_qbf_def example_expansion_def LIT2VAR_def VAR2LIT_def LITSIGNBIT_def LIT_NEG_def
  all_mapped_def orderings_in_prefix_def passes_existential_test_def passes_annotation_test_def
  ferat_test_expansion_origin_in_QBF_def ferat_check_annotations_against_expansion_def
  add_quantifiers.simps annotation_in_UV_def allit_binary_search_contains_def
  allit_binary_search_index_def binary_search_loop.simps remove_all_occurrences.simps
  allit_remove_def Let_def ferat_check_expansion_clause_def matrix_loop.simps
  check_candidate_def ferat_insert_check_result_def ferat_check_result_new_def
  EXIT_PARSING_FAILURE_def

lemma check_clauses_count:
  "check_clauses qbf clauses i expansion result = Inr (expansion', result') \<Longrightarrow>
     num_results result = length (types result) \<Longrightarrow>
     num_results result' = length (types result')"
proof (induction clauses arbitrary: i expansion result)
  case Nil
  then show ?case by simp
next
  case (Cons c clauses)
  then show ?case
    by (fastforce simp: ferat_check_expansion_clause_def ferat_insert_check_result_def
          split: sum.splits prod.splits option.splits if_splits)
qed

text \<open>
  Claim C3, as stated, fails where one of the two tests does not return. The expansion
  clause \<open>3 0\<close> has no mapping record for its variable: no matrix clause passes the
  existential-literal test, and instead of a failure \<open>INCORRECT_LITERALS\<close> being
  appended the assertion that the mapping exists fails. Over the formula \<open>gap_qbf\<close>,
  whose prefix and prefix mapping the quantifier lines are parsed to, the expansion clause
  \<open>1 0\<close> passes the existential-literal test on the only matrix clause and does not
  pass the annotation test on it, and instead of a failure \<open>INCORRECT_ANNOTATION\<close>
  being appended the bounds assertion of \<open>alptr_get\<close> fails at the prefix position 2.
\<close>

theorem iterative_mode_aborts_counterexample:
  "clause_origins (example_expansion [3] None) = None
   \<and> \<not> (\<exists>Q \<in> set (matrix example_qbf).
            passes_existential_test example_qbf (example_expansion [3] None) [6] Q)
   \<and> ferat_check_expansion_clause [6] 0 (example_expansion [3] None) example_qbf
        ferat_check_result_new = Inl AssertionFailure
   \<and> parse_prefix (parse_quantifier_line True [2] (parse_quantifier_line True [1]
        (parse_quantifier_line True [1] (parse_quantifier_line True [1]
           quantifier_parse_start)))) = prefix gap_qbf
   \<and> parse_prefix_mapping (parse_quantifier_line True [2] (parse_quantifier_line True [1]
        (parse_quantifier_line True [1] (parse_quantifier_line True [1]
           quantifier_parse_start)))) = [1 \<mapsto> 0, 2 \<mapsto> 3]
   \<and> clause_origins gap_expansion = None
   \<and> (\<exists>Q \<in> set (matrix gap_qbf). passes_existential_test gap_qbf gap_expansion [2] Q)
   \<and> \<not> (\<exists>Q \<in> set (matrix gap_qbf). passes_annotation_test gap_qbf gap_expansion [2] Q)
   \<and> ferat_check_expansion_clause [2] 0 gap_expansion gap_qbf ferat_check_result_new =
        Inl AssertionFailure"
proof -
  have o: "clause_origins (example_expansion [3] None) = None"
    by (simp add: example_expansion_def)
  have t: "\<not> (\<exists>Q \<in> set (matrix example_qbf).
            passes_existential_test example_qbf (example_expansion [3] None) [6] Q)"
    by (simp add: checker_eval)
  have c: "ferat_check_expansion_clause [6] 0 (example_expansion [3] None) example_qbf
        ferat_check_result_new = Inl AssertionFailure"
    by (simp add: checker_eval)
  have p: "parse_prefix (parse_quantifier_line True [2] (parse_quantifier_line True [1]
        (parse_quantifier_line True [1] (parse_quantifier_line True [1]
           quantifier_parse_start)))) = prefix gap_qbf"
    by (simp add: parse_quantifier_line_def quantifier_parse_start_def
          quantifier_variables_loop.simps gap_qbf_def Let_def)
  have pm: "parse_prefix_mapping (parse_quantifier_line True [2] (parse_quantifier_line True [1]
        (parse_quantifier_line True [1] (parse_quantifier_line True [1]
           quantifier_parse_start)))) = [1 \<mapsto> 0, 2 \<mapsto> 3]"
    by (simp add: parse_quantifier_line_def quantifier_parse_start_def
          quantifier_variables_loop.simps Let_def numeral_3_eq_3)
  have go: "clause_origins gap_expansion = None" by (simp add: gap_expansion_def)
  have gt: "\<exists>Q \<in> set (matrix gap_qbf). passes_existential_test gap_qbf gap_expansion [2] Q"
    by (simp add: gap_qbf_def gap_expansion_def checker_eval)
  have ga: "\<not> (\<exists>Q \<in> set (matrix gap_qbf). passes_annotation_test gap_qbf gap_expansion [2] Q)"
    by (simp add: gap_qbf_def gap_expansion_def checker_eval)
  have gc: "ferat_check_expansion_clause [2] 0 gap_expansion gap_qbf ferat_check_result_new =
        Inl AssertionFailure"
    by (simp add: gap_qbf_def gap_expansion_def checker_eval)
  from o t c p pm go gt ga gc show ?thesis by simp
qed

text \<open>
  Claim C3, amended. In iterative mode (no origin map), for an expansion clause whose
  literals all have mapping records and a formula none of whose orderings exceeds the
  length of the prefix, the check of the clause returns, and: if no matrix clause passes
  the existential-literal test, exactly one failure \<open>INCORRECT_LITERALS\<close> with the
  clause index is appended; if some matrix clause passes it but none of those passes the
  annotation test, exactly one failure \<open>INCORRECT_ANNOTATION\<close> with the clause index is
  appended; if some matrix clause passes both tests, nothing is appended. Whenever
  \<open>ferat_check\<close> returns, its verdict is true exactly when \<open>num_results\<close> is 0, and
  \<open>num_results\<close> is the number of recorded failures if it was so at the start.
\<close>

theorem iterative_mode_failures:
  assumes "clause_origins expansion = None"
    and "all_mapped expansion exp_clause"
    and "orderings_in_prefix qbf"
  shows "(\<not> (\<exists>Q \<in> set (matrix qbf). passes_existential_test qbf expansion exp_clause Q) \<longrightarrow>
            ferat_check_expansion_clause exp_clause i expansion qbf result =
              Inr (expansion,
                   result\<lparr>num_results := num_results result + 1,
                          types := types result @ [FERAT_CHECK_RESULT_INCORRECT_LITERALS],
                          clause_indices := clause_indices result @ [i]\<rparr>))
       \<and> ((\<exists>Q \<in> set (matrix qbf). passes_existential_test qbf expansion exp_clause Q)
            \<and> (\<forall>Q \<in> set (matrix qbf). passes_existential_test qbf expansion exp_clause Q \<longrightarrow>
                   \<not> passes_annotation_test qbf expansion exp_clause Q) \<longrightarrow>
            ferat_check_expansion_clause exp_clause i expansion qbf result =
              Inr (expansion,
                   result\<lparr>num_results := num_results result + 1,
                          types := types result @ [FERAT_CHECK_RESULT_INCORRECT_ANNOTATION],
                          clause_indices := clause_indices result @ [i]\<rparr>))
       \<and> ((\<exists>Q \<in> set (matrix qbf). passes_existential_test qbf expansion exp_clause Q
                                     \<and> passes_annotation_test qbf expansion exp_clause Q) \<longrightarrow>
            ferat_check_expansion_clause exp_clause i expansion qbf result =
              Inr (expansion, result))
       \<and> (\<forall>clauses verdict expansion' result'.
            ferat_check result qbf expansion clauses = Inr (verdict, expansion', result') \<longrightarrow>
              verdict = (num_results result' = 0)
              \<and> (num_results result = length (types result) \<longrightarrow>
                   num_results result' = length (types result')))"
proof -
  note ml = matrix_loop_iterative[OF assms, of i 0 False]
  have verdict: "\<forall>clauses verdict expansion' result'.
            ferat_check result qbf expansion clauses = Inr (verdict, expansion', result') \<longrightarrow>
              verdict = (num_results result' = 0)
              \<and> (num_results result = length (types result) \<longrightarrow>
                   num_results result' = length (types result'))"
    by (auto simp: ferat_check_def split: sum.splits dest: check_clauses_count)
  show ?thesis
    using ml verdict
    by (auto simp: ferat_check_expansion_clause_def ferat_insert_check_result_def
          simp del: )
qed

theorem iterative_mode_failures_witness:
  "clause_origins (example_expansion [3] None) = None
   \<and> all_mapped (example_expansion [3] None) [2, 4]
   \<and> all_mapped (example_expansion [3] None) [2]
   \<and> all_mapped (example_expansion [2] None) [2, 4]
   \<and> orderings_in_prefix example_qbf
   \<and> \<not> (\<exists>Q \<in> set (matrix example_qbf).
            passes_existential_test example_qbf (example_expansion [3] None) [2] Q)
   \<and> ferat_check_expansion_clause [2] 7 (example_expansion [3] None) example_qbf
        ferat_check_result_new =
        Inr (example_expansion [3] None,
             \<lparr>types = [FERAT_CHECK_RESULT_INCORRECT_LITERALS], clause_indices = [7],
              num_results = 1\<rparr>)
   \<and> (\<exists>Q \<in> set (matrix example_qbf).
          passes_existential_test example_qbf (example_expansion [2] None) [2, 4] Q)
   \<and> matrix example_qbf = [[2, 4, 6]]
   \<and> \<not> passes_annotation_test example_qbf (example_expansion [2] None) [2, 4] [2, 4, 6]
   \<and> ferat_check_expansion_clause [2, 4] 7 (example_expansion [2] None) example_qbf
        ferat_check_result_new =
        Inr (example_expansion [2] None,
             \<lparr>types = [FERAT_CHECK_RESULT_INCORRECT_ANNOTATION], clause_indices = [7],
              num_results = 1\<rparr>)
   \<and> (\<exists>Q \<in> set (matrix example_qbf).
          passes_existential_test example_qbf (example_expansion [3] None) [2, 4] Q
          \<and> passes_annotation_test example_qbf (example_expansion [3] None) [2, 4] Q)
   \<and> ferat_check_expansion_clause [2, 4] 7 (example_expansion [3] None) example_qbf
        ferat_check_result_new =
        Inr (example_expansion [3] None, ferat_check_result_new)"
proof -
  have e3: "clause_origins (example_expansion [3] None) = None"
    and e2: "clause_origins (example_expansion [2] None) = None"
    by (simp_all add: example_expansion_def)
  have m1: "all_mapped (example_expansion [3] None) [2, 4]"
    and m2: "all_mapped (example_expansion [3] None) [2]"
    and m3: "all_mapped (example_expansion [2] None) [2, 4]"
    by (simp_all add: checker_eval)
  have o: "orderings_in_prefix example_qbf" by (simp add: checker_eval)
  have t1: "\<not> passes_existential_test example_qbf (example_expansion [3] None) [2] [2, 4, 6]"
    and t2: "passes_existential_test example_qbf (example_expansion [2] None) [2, 4] [2, 4, 6]"
    and a2: "\<not> passes_annotation_test example_qbf (example_expansion [2] None) [2, 4] [2, 4, 6]"
    and t3: "passes_existential_test example_qbf (example_expansion [3] None) [2, 4] [2, 4, 6]"
    and a3: "passes_annotation_test example_qbf (example_expansion [3] None) [2, 4] [2, 4, 6]"
    by (simp_all add: checker_eval)
  have mx: "matrix example_qbf = [[2, 4, 6]]" by (simp add: example_qbf_def)
  show ?thesis
    using iterative_mode_failures[OF e3 m2 o, of 7 ferat_check_result_new]
      iterative_mode_failures[OF e2 m3 o, of 7 ferat_check_result_new]
      iterative_mode_failures[OF e3 m1 o, of 7 ferat_check_result_new]
      e3 m1 m2 m3 o t1 t2 a2 t3 a3
    by (simp add: mx ferat_check_result_new_def)
qed

section \<open>The origin map\<close>

text \<open>
  Claim C4. The loop of \<open>ferat_check_expansion_clause\<close> compares the matrix index
  \<open>i\<close>, which is 0 when the origin map is consulted, with the size of the origin map,
  and then reads the map at the clause index. For a clause index beyond the end of a
  non-empty origin map and a non-empty matrix the bounds assertion of \<open>al32_get\<close>
  fails: the checker does not fall back to iterative mode.
\<close>

theorem origin_map_exhausted_aborts:
  assumes "matrix qbf \<noteq> []"
    and "clause_origins expansion = Some origins"
    and "origins \<noteq> []"
    and "length origins \<le> exp_clause_index"
  shows "ferat_check_expansion_clause exp_clause exp_clause_index expansion qbf result =
           Inl AssertionFailure"
  using assms
  by (cases "matrix qbf"; cases origins)
     (simp_all add: ferat_check_expansion_clause_def matrix_loop.simps)

theorem origin_map_exhausted_aborts_witness:
  "matrix example_qbf \<noteq> []
   \<and> clause_origins (example_expansion [3] (Some [0])) = Some [0]
   \<and> [0::nat] \<noteq> []
   \<and> length [0::nat] \<le> 1
   \<and> ferat_check_expansion_clause [2, 4] 1 (example_expansion [3] (Some [0])) example_qbf
        ferat_check_result_new = Inl AssertionFailure"
  using origin_map_exhausted_aborts[of example_qbf "example_expansion [3] (Some [0])" "[0]" 1
          "[2, 4]" ferat_check_result_new]
  by (simp add: example_qbf_def example_expansion_def)

section \<open>Unmapped expansion literals\<close>

text \<open>
  Claim C9, as stated, fails: an expansion clause with an unmapped literal makes the
  assertion \<open>result.ok\<close> of the existential-literal test fail.
\<close>

theorem unmapped_literal_aborts_counterexample:
  "exp_var_mappings (example_expansion [3] None) (LIT2VAR 6) = None
   \<and> ferat_check_expansion_clause [6] 0 (example_expansion [3] None) example_qbf
        ferat_check_result_new = Inl AssertionFailure"
  by (simp add: checker_eval)

text \<open>
  Claim C9, amended. An expansion clause with an unmapped literal is never accepted and
  never recorded as \<open>INCORRECT_ANNOTATION\<close>: its check either terminates abnormally or
  records \<open>INCORRECT_LITERALS\<close>. In iterative mode it records \<open>INCORRECT_LITERALS\<close>
  exactly when every matrix clause lacks the counterpart of a mapped literal in front of
  the first unmapped literal; otherwise the assertion fails.
\<close>

theorem unmapped_literal_outcome:
  assumes "\<not> all_mapped expansion exp_clause"
  shows "((\<exists>err. ferat_check_expansion_clause exp_clause i expansion qbf result = Inl err)
          \<or> (\<exists>expansion'. ferat_check_expansion_clause exp_clause i expansion qbf result =
                Inr (expansion',
                     ferat_insert_check_result result FERAT_CHECK_RESULT_INCORRECT_LITERALS i)))
       \<and> (clause_origins expansion = None \<longrightarrow>
            ferat_check_expansion_clause exp_clause i expansion qbf result =
              (if \<forall>Q \<in> set (matrix qbf). rejects_before_unmapped expansion exp_clause Q
               then Inr (expansion,
                      ferat_insert_check_result result FERAT_CHECK_RESULT_INCORRECT_LITERALS i)
               else Inl AssertionFailure))"
  using matrix_loop_unmapped_never_accepts[OF assms, of i qbf 0]
    matrix_loop_iterative_unmapped[OF _ assms, of i qbf 0 False]
  by (auto simp: ferat_check_expansion_clause_def)

theorem unmapped_literal_outcome_witness:
  "\<not> all_mapped (example_expansion [3] None) [2, 8]
   \<and> \<not> all_mapped (example_expansion [3] None) [2, 3, 8]
   \<and> clause_origins (example_expansion [3] None) = None
   \<and> ferat_check_expansion_clause [2, 8] 0 (example_expansion [3] None) example_qbf
        ferat_check_result_new = Inl AssertionFailure
   \<and> ferat_check_expansion_clause [2, 3, 8] 0 (example_expansion [3] None) example_qbf
        ferat_check_result_new =
        Inr (example_expansion [3] None,
             \<lparr>types = [FERAT_CHECK_RESULT_INCORRECT_LITERALS], clause_indices = [0],
              num_results = 1\<rparr>)"
proof -
  have u1: "\<not> all_mapped (example_expansion [3] None) [2, 8]"
    and u2: "\<not> all_mapped (example_expansion [3] None) [2, 3, 8]"
    by (simp_all add: checker_eval)
  have r1: "\<not> rejects_before_unmapped (example_expansion [3] None) [2, 8] [2, 4, 6]"
    and r2: "rejects_before_unmapped (example_expansion [3] None) [2, 3, 8] [2, 4, 6]"
    by (simp_all add: rejects_before_unmapped_def mapped_def counterpart_def checker_eval)
  show ?thesis
    using unmapped_literal_outcome[OF u1, of 0 example_qbf ferat_check_result_new]
      unmapped_literal_outcome[OF u2, of 0 example_qbf ferat_check_result_new] u1 u2 r1 r2
    by (simp add: example_qbf_def example_expansion_def ferat_insert_check_result_def
          ferat_check_result_new_def)
qed

section \<open>Properties of the quantifier lines\<close>

lemma quantifier_variables_loop_duplicate:
  assumes "k < length qv" and "i \<le> k" and "pm (qv ! k) \<noteq> None" and "0 < n"
  shows "fst (quantifier_variables_loop qv i n vars pm mv q) = 0
       \<and> (\<forall>v. v \<notin> set (take k qv) \<longrightarrow>
              fst (snd (snd (quantifier_variables_loop qv i n vars pm mv q))) v = pm v)"
  using assms
proof (induction qv i n vars pm mv q rule: quantifier_variables_loop.induct)
  case (1 qv i n vars pm mv q)
  have i: "i < length qv" using "1.prems" by simp
  show ?case
  proof (cases "pm (qv ! i) \<noteq> None")
    case True
    show ?thesis
    proof (cases "n - 1 = 0")
      case z: True
      with i True show ?thesis by (subst (1 2) quantifier_variables_loop.simps) simp
    next
      case nz: False
      have eq: "quantifier_variables_loop qv i n vars pm mv q =
                quantifier_variables_loop qv i (n - 1) vars pm mv q"
        using i True nz by (subst quantifier_variables_loop.simps) simp
      from "1.IH"(1)[OF i refl True nz "1.prems"(1,2,3)] nz show ?thesis by (simp add: eq)
    qed
  next
    case False
    with "1.prems" have ik: "i \<noteq> k" by auto
    with "1.prems" have ik': "i + 1 \<le> k" by simp
    define pm' where "pm' = pm(qv ! i \<mapsto> q)"
    have pk: "pm' (qv ! k) \<noteq> None" using "1.prems"(3) by (simp add: pm'_def)
    have eq: "quantifier_variables_loop qv i n vars pm mv q =
              quantifier_variables_loop qv (i + 1) n (vars @ [qv ! i]) pm'
                (if qv ! i > mv then qv ! i else mv) q"
      using i False by (subst quantifier_variables_loop.simps) (simp add: pm'_def Let_def)
    have mem: "qv ! i \<in> set (take k qv)"
      using ik' "1.prems"(1) by (auto simp: in_set_conv_nth intro!: exI[of _ i])
    note IH = "1.IH"(2)[OF i refl False "1.prems"(1) ik' pk[unfolded pm'_def] "1.prems"(4),
        folded pm'_def]
    have "\<forall>v. v \<notin> set (take k qv) \<longrightarrow> pm' v = pm v"
      using mem by (auto simp: pm'_def)
    with IH show ?thesis unfolding eq by simp
  qed
qed

text \<open>
  Claim C6. On a duplicate the loop decrements \<open>num_vars\<close> without advancing \<open>i\<close>, so
  it meets the same variable again until \<open>num_vars\<close> is 0. A line that contains an
  already bound variable at position \<open>k\<close> therefore never adds a block to the prefix,
  and no variable of the line other than those before position \<open>k\<close> is registered:
  the not-yet-bound variables after a duplicate are dropped with it.
\<close>

theorem duplicate_discards_whole_block:
  assumes "k < length quantifier_variables"
    and "parse_prefix_mapping st (quantifier_variables ! k) \<noteq> None"
  shows "parse_prefix (parse_quantifier_line is_existential quantifier_variables st) =
           parse_prefix st
       \<and> (\<forall>v. v \<notin> set (take k quantifier_variables) \<longrightarrow>
              parse_prefix_mapping (parse_quantifier_line is_existential quantifier_variables st) v
                = parse_prefix_mapping st v)"
proof -
  have n: "0 < length quantifier_variables" using assms(1) by (cases quantifier_variables) auto
  from quantifier_variables_loop_duplicate[where qv = quantifier_variables and k = k and i = 0
      and pm = "parse_prefix_mapping st" and n = "length quantifier_variables" and vars = "[]"
      and mv = "parse_max_var st" and q = "quantifier_index st"] assms n
  show ?thesis by (simp add: parse_quantifier_line_def Let_def)
qed

lemmas quantifier_eval = parse_quantifier_line_def quantifier_parse_start_def quantifier_variables_loop.simps Let_def

theorem duplicate_discards_whole_block_witness:
  "(1::nat) < length [3, 1, 2 :: Variable]
   \<and> parse_prefix_mapping (parse_quantifier_line True [1] quantifier_parse_start)
        ([3, 1, 2] ! 1) \<noteq> None
   \<and> parse_prefix (parse_quantifier_line False [3, 1, 2]
        (parse_quantifier_line True [1] quantifier_parse_start)) =
        [\<lparr>quant_type = QUANT_TYPE_EXISTENTIAL, ordering = 0, variables = [1]\<rparr>]
   \<and> parse_prefix_mapping (parse_quantifier_line False [3, 1, 2]
        (parse_quantifier_line True [1] quantifier_parse_start)) 2 = None
   \<and> parse_prefix_mapping (parse_quantifier_line False [3, 1, 2]
        (parse_quantifier_line True [1] quantifier_parse_start)) 3 = Some 1"
proof -
  have b: "parse_prefix_mapping (parse_quantifier_line True [1] quantifier_parse_start)
        ([3, 1, 2] ! 1) \<noteq> None"
    by (simp add: quantifier_eval)
  have p: "parse_prefix (parse_quantifier_line True [1] quantifier_parse_start) =
        [\<lparr>quant_type = QUANT_TYPE_EXISTENTIAL, ordering = 0, variables = [1]\<rparr>]"
    and m: "parse_prefix_mapping (parse_quantifier_line True [1] quantifier_parse_start) 2 = None"
    by (simp_all add: quantifier_eval)
  have m3: "parse_prefix_mapping (parse_quantifier_line False [3, 1, 2]
        (parse_quantifier_line True [1] quantifier_parse_start)) 3 = Some 1"
    by (simp add: quantifier_eval)
  show ?thesis
    using duplicate_discards_whole_block[of 1 "[3, 1, 2]"
        "parse_quantifier_line True [1] quantifier_parse_start" False] b p m m3
    by simp
qed

section \<open>Properties of the sort\<close>

lemma permuted_within_refl: "permuted_within low high vs vs"
  by (auto simp: permuted_within_def)

lemma permuted_within_trans:
  "permuted_within low high vs vs' \<Longrightarrow> permuted_within low high vs' vs'' \<Longrightarrow>
     permuted_within low high vs vs''"
  unfolding permuted_within_def by (metis (no_types, lifting))

lemma permuted_within_swap:
  assumes "low \<le> a" "a \<le> high" "low \<le> b" "b \<le> high" "high < length vs"
  shows "permuted_within low high vs (swap_values vs a b)"
proof -
  have a: "a < length vs" and b: "b < length vs" using assms by auto
  have m: "mset (swap_values vs a b) = mset vs"
    unfolding swap_values_def using mset_swap[OF b a] by (simp add: list_update_swap)
  show ?thesis
    unfolding permuted_within_def
  proof (intro conjI allI impI)
    show "length (swap_values vs a b) = length vs" by (simp add: swap_values_def)
    show "mset (swap_values vs a b) = mset vs" by (rule m)
  next
    fix p assume "p < low \<or> high < p"
    then show "swap_values vs a b ! p = vs ! p"
      using assms by (auto simp: swap_values_def)
  next
    fix p assume p: "low \<le> p \<and> p \<le> high"
    show "\<exists>p'. low \<le> p' \<and> p' \<le> high \<and> swap_values vs a b ! p = vs ! p'"
    proof (cases "p = b")
      case True
      then show ?thesis using assms a b by (auto simp: swap_values_def intro!: exI[of _ a])
    next
      case nb: False
      show ?thesis
      proof (cases "p = a")
        case True
        then show ?thesis using assms a b nb by (auto simp: swap_values_def intro!: exI[of _ b])
      next
        case False
        then show ?thesis using p nb by (auto simp: swap_values_def intro!: exI[of _ p])
      qed
    qed
  qed
qed

lemma swap_values_nth:
  "a < length vs \<Longrightarrow> b < length vs \<Longrightarrow>
     swap_values vs a b ! p = (if p = b then vs ! a else if p = a then vs ! b else vs ! p)"
  by (auto simp: swap_values_def)

lemma partition_loop_correct:
  assumes "low \<le> i1" and "i1 \<le> j" and "j \<le> high" and "high < length vs"
    and "\<forall>p. low \<le> p \<and> p < i1 \<longrightarrow> key (vs ! p) \<le> central"
    and "\<forall>p. i1 \<le> p \<and> p < j \<longrightarrow> key (vs ! p) > central"
  shows "permuted_within low high vs (fst (partition_loop key central high vs i1 j))
       \<and> fst (partition_loop key central high vs i1 j) ! high = vs ! high
       \<and> low \<le> snd (partition_loop key central high vs i1 j)
       \<and> snd (partition_loop key central high vs i1 j) \<le> high
       \<and> (\<forall>p. low \<le> p \<and> p < snd (partition_loop key central high vs i1 j) \<longrightarrow>
              key (fst (partition_loop key central high vs i1 j) ! p) \<le> central)
       \<and> (\<forall>p. snd (partition_loop key central high vs i1 j) \<le> p \<and> p < high \<longrightarrow>
              key (fst (partition_loop key central high vs i1 j) ! p) > central)"
  using assms
proof (induction key central high vs i1 j rule: partition_loop.induct)
  case (1 key central high vs i1 j)
  show ?case
  proof (cases "j < high")
    case False
    with "1.prems" have jh: "j = high" by simp
    have eq: "partition_loop key central high vs i1 j = (vs, i1)"
      using False by (subst partition_loop.simps) simp
    show ?thesis
      unfolding eq using "1.prems" jh by (simp add: permuted_within_refl)
  next
    case True
    show ?thesis
    proof (cases "key (vs ! j) > central")
      case gt: True
      have eq: "partition_loop key central high vs i1 j =
                partition_loop key central high vs i1 (j + 1)"
        using True gt by (subst partition_loop.simps) simp
      have inv: "\<forall>p. i1 \<le> p \<and> p < j + 1 \<longrightarrow> key (vs ! p) > central"
        using "1.prems"(6) gt by (auto simp: less_Suc_eq)
      from "1.IH"(1)[OF True gt "1.prems"(1) _ _ "1.prems"(4,5) inv] "1.prems"(2) True
      show ?thesis by (simp add: eq)
    next
      case le: False
      define vs' where "vs' = swap_values vs i1 j"
      have eq: "partition_loop key central high vs i1 j =
                partition_loop key central high vs' (i1 + 1) (j + 1)"
        using True le by (subst partition_loop.simps) (simp add: vs'_def)
      have bounds: "i1 < length vs" "j < length vs" using "1.prems" True by auto
      have pw: "permuted_within low high vs vs'"
        unfolding vs'_def
        using permuted_within_swap[of low i1 high j vs] "1.prems" True by simp
      have len: "high < length vs'" using pw "1.prems"(4) by (simp add: permuted_within_def)
      have hi: "vs' ! high = vs ! high"
        using True "1.prems"(2) bounds by (simp add: vs'_def swap_values_nth)
      have inv1: "\<forall>p. low \<le> p \<and> p < i1 + 1 \<longrightarrow> key (vs' ! p) \<le> central"
        using "1.prems"(2,5) le bounds by (auto simp: vs'_def swap_values_nth less_Suc_eq)
      have inv2: "\<forall>p. i1 + 1 \<le> p \<and> p < j + 1 \<longrightarrow> key (vs' ! p) > central"
        using "1.prems"(2,6) bounds by (auto simp: vs'_def swap_values_nth less_Suc_eq)
      note IH = "1.IH"(2)[OF True le, folded vs'_def, OF _ _ _ len inv1 inv2]
      have "low \<le> i1 + 1" "i1 + 1 \<le> j + 1" "j + 1 \<le> high"
        using "1.prems" True by auto
      note r = IH[OF this]
      have "permuted_within low high vs (fst (partition_loop key central high vs' (i1 + 1) (j + 1)))"
        using pw r permuted_within_trans by blast
      with r hi show ?thesis unfolding eq by simp
    qed
  qed
qed

lemma partition_range_correct:
  assumes "low \<le> high" and "high < length vs"
  shows "permuted_within low high vs (fst (partition_range key low high vs))
       \<and> low \<le> snd (partition_range key low high vs)
       \<and> snd (partition_range key low high vs) \<le> high
       \<and> (\<forall>q. low \<le> q \<and> q < snd (partition_range key low high vs) \<longrightarrow>
              key (fst (partition_range key low high vs) ! q)
                \<le> key (fst (partition_range key low high vs)
                          ! snd (partition_range key low high vs)))
       \<and> (\<forall>q. snd (partition_range key low high vs) < q \<and> q \<le> high \<longrightarrow>
              key (fst (partition_range key low high vs)
                     ! snd (partition_range key low high vs))
                \<le> key (fst (partition_range key low high vs) ! q))"
proof -
  define central where "central = key (vs ! high)"
  define r where "r = partition_loop key central high vs low low"
  define vs1 where "vs1 = fst r"
  define p where "p = snd r"
  have pl: "permuted_within low high vs vs1" "vs1 ! high = vs ! high" "low \<le> p" "p \<le> high"
    "\<forall>q. low \<le> q \<and> q < p \<longrightarrow> key (vs1 ! q) \<le> central"
    "\<forall>q. p \<le> q \<and> q < high \<longrightarrow> key (vs1 ! q) > central"
  proof -
    have v1: "\<forall>q. low \<le> q \<and> q < low \<longrightarrow> key (vs ! q) \<le> central"
      and v2: "\<forall>q. low \<le> q \<and> q < low \<longrightarrow> key (vs ! q) > central" by auto
    note c = partition_loop_correct[OF order_refl order_refl assms(1,2) v1 v2, folded r_def,
        folded vs1_def p_def]
    from c show "permuted_within low high vs vs1" by blast
    from c show "vs1 ! high = vs ! high" by blast
    from c show "low \<le> p" by blast
    from c show "p \<le> high" by blast
    from c show "\<forall>q. low \<le> q \<and> q < p \<longrightarrow> key (vs1 ! q) \<le> central" by blast
    from c show "\<forall>q. p \<le> q \<and> q < high \<longrightarrow> key (vs1 ! q) > central" by blast
  qed
  have len1: "length vs1 = length vs" using pl(1) by (simp add: permuted_within_def)
  define vs2 where "vs2 = (if p < high then swap_values vs1 p high else vs1)"
  have res: "partition_range key low high vs = (vs2, p)"
    by (simp add: partition_range_def Let_def vs2_def p_def vs1_def r_def central_def)
  have pw2: "permuted_within low high vs vs2"
  proof (cases "p < high")
    case True
    have "permuted_within low high vs1 (swap_values vs1 p high)"
      using permuted_within_swap[of low p high high vs1] pl(3,4) assms len1 by simp
    with pl(1) True show ?thesis by (auto simp: vs2_def intro: permuted_within_trans)
  next
    case False
    with pl(1) show ?thesis by (simp add: vs2_def)
  qed
  have piv: "key (vs2 ! p) = central"
    using pl(2,4) assms len1 by (auto simp: vs2_def swap_values_nth central_def)
  have left: "\<forall>q. low \<le> q \<and> q < p \<longrightarrow> key (vs2 ! q) \<le> central"
    using pl(4,5) assms len1 by (auto simp: vs2_def swap_values_nth)
  have right: "\<forall>q. p < q \<and> q \<le> high \<longrightarrow> central \<le> key (vs2 ! q)"
  proof (intro allI impI)
    fix q assume q: "p < q \<and> q \<le> high"
    then have ph: "p < high" by simp
    show "central \<le> key (vs2 ! q)"
    proof (cases "q = high")
      case True
      have "vs2 ! high = vs1 ! p"
        using ph assms len1 by (simp add: vs2_def swap_values_nth)
      moreover have "key (vs1 ! p) > central" using pl(6) ph by simp
      ultimately show ?thesis using True by simp
    next
      case False
      with q have "vs2 ! q = vs1 ! q"
        using ph assms len1 by (simp add: vs2_def swap_values_nth)
      moreover have "key (vs1 ! q) > central" using pl(6) q False by simp
      ultimately show ?thesis by simp
    qed
  qed
  show ?thesis using pw2 pl(3,4) left right piv by (simp add: res)
qed

lemma push_ranges_set:
  "set (push_ranges low high pivot stack) =
     (if low + 1 < pivot then {(low, pivot - 1)} else {})
     \<union> (if high - 1 > pivot then {(pivot + 1, high)} else {}) \<union> set stack"
  by (auto simp: push_ranges_def Let_def)

lemma disjoint_ranges_push:
  assumes "disjoint_ranges ((low, high) # stack)" and "low \<le> pivot" and "pivot \<le> high"
  shows "disjoint_ranges (push_ranges low high pivot stack)"
  using assms by (fastforce simp: push_ranges_def Let_def)

lemma quicksort_invariant_step:
  assumes inv: "quicksort_invariant key ((low, high) # stack) vs"
  shows "quicksort_invariant key
           (push_ranges low high (snd (partition_range key low high vs)) stack)
           (fst (partition_range key low high vs))
       \<and> length (fst (partition_range key low high vs)) = length vs
       \<and> mset (fst (partition_range key low high vs)) = mset vs"
proof -
  define vs' where "vs' = fst (partition_range key low high vs)"
  define p where "p = snd (partition_range key low high vs)"
  define stack' where "stack' = push_ranges low high p stack"
  from inv have lh: "low < high" "high < length vs"
    and dis: "disjoint_ranges ((low, high) # stack)"
    and valid: "\<forall>(l, h) \<in> set stack. l < h \<and> h < length vs"
    and ord: "\<And>a b. a < b \<Longrightarrow> b < length vs \<Longrightarrow>
               key (vs ! a) \<le> key (vs ! b) \<or> in_same_range ((low, high) # stack) a b"
    by (auto simp: quicksort_invariant_def)
  have lh': "low \<le> high" using lh by simp
  note pr = partition_range_correct[OF lh' lh(2), of key, folded vs'_def p_def]
  from pr have pw: "permuted_within low high vs vs'" and lp: "low \<le> p" and ph: "p \<le> high"
    and left: "\<And>q. low \<le> q \<Longrightarrow> q < p \<Longrightarrow> key (vs' ! q) \<le> key (vs' ! p)"
    and right: "\<And>q. p < q \<Longrightarrow> q \<le> high \<Longrightarrow> key (vs' ! p) \<le> key (vs' ! q)"
    by blast+
  from pw have len: "length vs' = length vs" and ms: "mset vs' = mset vs"
    and outer: "\<And>q. q < low \<or> high < q \<Longrightarrow> vs' ! q = vs ! q"
    and inner: "\<And>q. low \<le> q \<Longrightarrow> q \<le> high \<Longrightarrow> \<exists>q'. low \<le> q' \<and> q' \<le> high \<and> vs' ! q = vs ! q'"
    by (auto simp: permuted_within_def)
  have sub: "set stack \<subseteq> set stack'" by (auto simp: stack'_def push_ranges_set)
  have v': "\<forall>(l, h) \<in> set stack'. l < h \<and> h < length vs'"
    using valid lh lp ph by (auto simp: stack'_def push_ranges_set len split: if_splits)
  have d': "disjoint_ranges stack'"
    unfolding stack'_def by (rule disjoint_ranges_push[OF dis lp ph])
  have no_cross: "\<not> in_same_range stack a b" if "low \<le> a" "a \<le> high" "high < b" for a b
    using dis that by (fastforce simp: in_same_range_def)
  have no_cross': "\<not> in_same_range stack a b" if "a < low" "low \<le> b" "b \<le> high" for a b
    using dis that by (fastforce simp: in_same_range_def)
  have mono: "in_same_range stack a b \<Longrightarrow> in_same_range stack' a b" for a b
    using sub by (auto simp: in_same_range_def)
  have o': "key (vs' ! a) \<le> key (vs' ! b) \<or> in_same_range stack' a b"
    if ab: "a < b" and bl: "b < length vs'" for a b
  proof -
    consider (out) "(a < low \<or> high < a) \<and> (b < low \<or> high < b)"
      | (left_in) "low \<le> a \<and> a \<le> high \<and> high < b"
      | (right_in) "a < low \<and> low \<le> b \<and> b \<le> high"
      | (both) "low \<le> a \<and> b \<le> high"
      using ab by linarith
    then show ?thesis
    proof cases
      case out
      then have e: "vs' ! a = vs ! a" "vs' ! b = vs ! b" using outer by auto
      from out ab have "\<not> (low \<le> a \<and> b \<le> high)" by auto
      with ord[OF ab] bl len have "key (vs ! a) \<le> key (vs ! b) \<or> in_same_range stack a b"
        by (auto simp: in_same_range_def)
      with e mono show ?thesis by auto
    next
      case left_in
      then obtain a' where a': "low \<le> a'" "a' \<le> high" "vs' ! a = vs ! a'"
        using inner by blast
      have e: "vs' ! b = vs ! b" using outer left_in by simp
      have "a' < b" using a' left_in by simp
      from ord[OF this] bl len have "key (vs ! a') \<le> key (vs ! b) \<or> in_same_range ((low, high) # stack) a' b"
        by simp
      moreover have "\<not> in_same_range ((low, high) # stack) a' b"
        using no_cross[OF a'(1,2), of b] left_in by (auto simp: in_same_range_def)
      ultimately show ?thesis using a'(3) e by simp
    next
      case right_in
      then obtain b' where b': "low \<le> b'" "b' \<le> high" "vs' ! b = vs ! b'"
        using inner by blast
      have e: "vs' ! a = vs ! a" using outer right_in by simp
      have ab': "a < b'" using b' right_in by simp
      have "b' < length vs" using b' lh by simp
      from ord[OF ab' this] have "key (vs ! a) \<le> key (vs ! b') \<or> in_same_range ((low, high) # stack) a b'"
        by simp
      moreover have "\<not> in_same_range ((low, high) # stack) a b'"
        using no_cross'[OF _ b'(1,2), of a] right_in by (auto simp: in_same_range_def)
      ultimately show ?thesis using b'(3) e by simp
    next
      case both
      consider "a < p \<and> p < b" | "a = p" | "b = p" | "b < p" | "p < a"
        using ab by linarith
      then show ?thesis
      proof cases
        case 1
        with left[of a] right[of b] both show ?thesis by force
      next
        case 2
        with right[of b] both ab show ?thesis by simp
      next
        case 3
        with left[of a] both ab show ?thesis by simp
      next
        case 4
        then have "low + 1 < p" using both ab by linarith
        then have "(low, p - 1) \<in> set stack'" by (simp add: stack'_def push_ranges_set)
        moreover have "low \<le> a \<and> b \<le> p - 1" using 4 both by simp
        ultimately show ?thesis by (auto simp: in_same_range_def)
      next
        case 5
        then have "high - 1 > p" using both ab by linarith
        then have "(p + 1, high) \<in> set stack'" by (simp add: stack'_def push_ranges_set)
        moreover have "p + 1 \<le> a \<and> b \<le> high" using 5 both by simp
        ultimately show ?thesis by (auto simp: in_same_range_def)
      qed
    qed
  qed
  have "quicksort_invariant key stack' vs'"
    unfolding quicksort_invariant_def using v' d' o' by blast
  then show ?thesis using len ms by (simp add: stack'_def vs'_def p_def)
qed

lemma quicksort_loop_correct:
  "quicksort_invariant key stack vs \<Longrightarrow>
     length (quicksort_loop key stack vs) = length vs
     \<and> mset (quicksort_loop key stack vs) = mset vs
     \<and> (\<forall>a b. a < b \<and> b < length vs \<longrightarrow>
            key (quicksort_loop key stack vs ! a) \<le> key (quicksort_loop key stack vs ! b))"
proof (induction key stack vs rule: quicksort_loop.induct)
  case (1 key vs)
  then show ?case by (auto simp: quicksort_invariant_def in_same_range_def)
next
  case (2 key low high stack vs)
  note st = quicksort_invariant_step[OF "2.prems"]
  from "2.IH"[OF refl] st show ?case by (simp add: Let_def)
qed

lemma iterative_inplace_quickort_correct:
  "length (iterative_inplace_quickort key vs) = length vs
   \<and> mset (iterative_inplace_quickort key vs) = mset vs
   \<and> sorted_wrt (\<lambda>x y. key x \<le> key y) (iterative_inplace_quickort key vs)"
proof (cases "length vs < 2")
  case True
  then have "sorted_wrt (\<lambda>x y. key x \<le> key y) vs"
    by (cases vs; cases "tl vs") auto
  with True show ?thesis by (simp add: iterative_inplace_quickort_def)
next
  case False
  have "quicksort_invariant key [(0, length vs - 1)] vs"
    using False by (auto simp: quicksort_invariant_def in_same_range_def)
  from quicksort_loop_correct[OF this] False show ?thesis
    by (simp add: iterative_inplace_quickort_def sorted_wrt_iff_nth_less)
qed

lemmas sort_eval =
  qbf_sort_clauses_in_matrix_def iterative_inplace_quickort_def partition_range_def
  partition_loop.simps push_ranges_def swap_values_def
  qbf_get_quant_ordering_from_index_partial_def sort_identity_def

text \<open>
  Claim C7. \<open>qbf_sort_clauses_in_matrix\<close> keeps the number of clauses and replaces
  every clause by a permutation of its literals that is non-decreasing in the quantifier
  ordering of the literals' variables (0 for a free variable); the checker's sort with the
  identity projection returns a permutation of the expansion clause that is non-decreasing
  in the literals' unsigned integer values.
\<close>

theorem sorting_orders_clauses:
  "length (matrix (qbf_sort_clauses_in_matrix qbf)) = length (matrix qbf)
   \<and> (\<forall>i < length (matrix qbf).
         mset (matrix (qbf_sort_clauses_in_matrix qbf) ! i) = mset (matrix qbf ! i)
         \<and> sorted_wrt (\<lambda>x y. qbf_get_quant_ordering_from_index_partial qbf x
                               \<le> qbf_get_quant_ordering_from_index_partial qbf y)
             (matrix (qbf_sort_clauses_in_matrix qbf) ! i))
   \<and> mset (iterative_inplace_quickort sort_identity exp_clause) = mset exp_clause
   \<and> sorted (map unat (iterative_inplace_quickort sort_identity exp_clause))"
proof -
  have "sorted_wrt (\<lambda>x y. sort_identity x \<le> sort_identity y)
          (iterative_inplace_quickort sort_identity exp_clause)"
    using iterative_inplace_quickort_correct[of sort_identity exp_clause] by blast
  then have "sorted (map unat (iterative_inplace_quickort sort_identity exp_clause))"
    by (simp add: sorted_map sort_identity_def word_le_nat_alt)
  then show ?thesis
    using iterative_inplace_quickort_correct[of sort_identity exp_clause]
      iterative_inplace_quickort_correct[of "qbf_get_quant_ordering_from_index_partial qbf"]
    by (simp add: qbf_sort_clauses_in_matrix_def)
qed

theorem sorting_orders_clauses_witness:
  "(0::nat) < length (matrix (example_qbf\<lparr>matrix := [[6, 2, 4, 3]]\<rparr>))
   \<and> matrix (qbf_sort_clauses_in_matrix (example_qbf\<lparr>matrix := [[6, 2, 4, 3]]\<rparr>)) ! 0
       = [2, 3, 4, 6]
   \<and> mset (matrix (qbf_sort_clauses_in_matrix (example_qbf\<lparr>matrix := [[6, 2, 4, 3]]\<rparr>)) ! 0)
       = mset [6, 2, 4, 3]
   \<and> sorted_wrt (\<lambda>x y. qbf_get_quant_ordering_from_index_partial
                           (example_qbf\<lparr>matrix := [[6, 2, 4, 3]]\<rparr>) x
                        \<le> qbf_get_quant_ordering_from_index_partial
                           (example_qbf\<lparr>matrix := [[6, 2, 4, 3]]\<rparr>) y)
        (matrix (qbf_sort_clauses_in_matrix (example_qbf\<lparr>matrix := [[6, 2, 4, 3]]\<rparr>)) ! 0)
   \<and> iterative_inplace_quickort sort_identity [7, 3, 9, 2, 3] = [2, 3, 3, 7, 9]"
proof -
  have l: "(0::nat) < length (matrix (example_qbf\<lparr>matrix := [[6, 2, 4, 3]]\<rparr>))" by simp
  have m: "matrix (qbf_sort_clauses_in_matrix (example_qbf\<lparr>matrix := [[6, 2, 4, 3]]\<rparr>)) ! 0
       = [2, 3, 4, 6]"
    by (simp add: example_qbf_def sort_eval Let_def LIT2VAR_def)
  have s: "iterative_inplace_quickort sort_identity [7, 3, 9, 2, 3] = [2, 3, 3, 7, 9]"
    by (simp add: sort_eval Let_def)
  show ?thesis
    using sorting_orders_clauses[of "example_qbf\<lparr>matrix := [[6, 2, 4, 3]]\<rparr>" "[7, 3, 9, 2, 3]"]
      l m s by simp
qed

text \<open>
  Claim C8, as stated, fails: the projection is the quantifier ordering alone, and equal
  keys stay in the order the partitioning leaves them. The clause \<open>2 1 0\<close> over two
  variables of the same block is returned as it is, the larger literal first.
\<close>

theorem ties_keep_partition_order_counterexample:
  "matrix (qbf_sort_clauses_in_matrix tie_qbf) = [[4, 2]]
   \<and> qbf_get_quant_ordering_from_index_partial tie_qbf 4
       = qbf_get_quant_ordering_from_index_partial tie_qbf 2
   \<and> (2 :: Literal) < 4"
  by (simp add: tie_qbf_def sort_eval Let_def LIT2VAR_def)

text \<open>
  Claim C8, amended. After the matrix sort, in every clause a literal whose variable has
  a strictly smaller quantifier ordering stands at a smaller position than a literal whose
  variable has a larger one; nothing is said about literals that share an ordering.
\<close>

theorem smaller_ordering_comes_first:
  assumes "i < length (matrix qbf)"
    and "a < length (matrix (qbf_sort_clauses_in_matrix qbf) ! i)"
    and "b < length (matrix (qbf_sort_clauses_in_matrix qbf) ! i)"
    and "qbf_get_quant_ordering_from_index_partial qbf
           (matrix (qbf_sort_clauses_in_matrix qbf) ! i ! a)
         < qbf_get_quant_ordering_from_index_partial qbf
           (matrix (qbf_sort_clauses_in_matrix qbf) ! i ! b)"
  shows "a < b"
proof (rule ccontr)
  assume "\<not> a < b"
  with assms(4) have ba: "b < a" by (cases "a = b") auto
  let ?c = "iterative_inplace_quickort (qbf_get_quant_ordering_from_index_partial qbf)
              (matrix qbf ! i)"
  have c: "matrix (qbf_sort_clauses_in_matrix qbf) ! i = ?c"
    using assms(1) by (simp add: qbf_sort_clauses_in_matrix_def)
  have "sorted_wrt (\<lambda>x y. qbf_get_quant_ordering_from_index_partial qbf x
                          \<le> qbf_get_quant_ordering_from_index_partial qbf y) ?c"
    using iterative_inplace_quickort_correct by blast
  with ba assms(2) have "qbf_get_quant_ordering_from_index_partial qbf (?c ! b)
                       \<le> qbf_get_quant_ordering_from_index_partial qbf (?c ! a)"
    unfolding c by (simp add: sorted_wrt_iff_nth_less)
  with assms(4) show False unfolding c by simp
qed

theorem smaller_ordering_comes_first_witness:
  "(0::nat) < length (matrix (example_qbf\<lparr>matrix := [[6, 2, 4, 3]]\<rparr>))
   \<and> (1::nat) < length (matrix (qbf_sort_clauses_in_matrix
                               (example_qbf\<lparr>matrix := [[6, 2, 4, 3]]\<rparr>)) ! 0)
   \<and> (2::nat) < length (matrix (qbf_sort_clauses_in_matrix
                               (example_qbf\<lparr>matrix := [[6, 2, 4, 3]]\<rparr>)) ! 0)
   \<and> qbf_get_quant_ordering_from_index_partial (example_qbf\<lparr>matrix := [[6, 2, 4, 3]]\<rparr>)
        (matrix (qbf_sort_clauses_in_matrix (example_qbf\<lparr>matrix := [[6, 2, 4, 3]]\<rparr>)) ! 0 ! 1)
      < qbf_get_quant_ordering_from_index_partial (example_qbf\<lparr>matrix := [[6, 2, 4, 3]]\<rparr>)
        (matrix (qbf_sort_clauses_in_matrix (example_qbf\<lparr>matrix := [[6, 2, 4, 3]]\<rparr>)) ! 0 ! 2)
   \<and> (1::nat) < 2"
proof -
  have m: "matrix (qbf_sort_clauses_in_matrix (example_qbf\<lparr>matrix := [[6, 2, 4, 3]]\<rparr>))
       = [[2, 3, 4, 6]]"
    by (simp add: example_qbf_def sort_eval Let_def LIT2VAR_def)
  have k: "qbf_get_quant_ordering_from_index_partial (example_qbf\<lparr>matrix := [[6, 2, 4, 3]]\<rparr>) 3
      < qbf_get_quant_ordering_from_index_partial (example_qbf\<lparr>matrix := [[6, 2, 4, 3]]\<rparr>) 4"
    by (simp add: example_qbf_def sort_eval Let_def LIT2VAR_def)
  show ?thesis
    using smaller_ordering_comes_first[of 0 "example_qbf\<lparr>matrix := [[6, 2, 4, 3]]\<rparr>" 1 2] m k
    by simp
qed

section \<open>Properties of the annotation test\<close>

lemma allit_insert_sorted_set: "set (allit_insert_sorted al e) = insert e (set al)"
  by (induction al) auto

lemma allit_insert_sorted_sorted: "sorted al \<Longrightarrow> sorted (allit_insert_sorted al e)"
  by (induction al) (auto simp: allit_insert_sorted_set)

lemma binary_search_loop_found:
  "0 \<le> binary_search_loop al e low high \<Longrightarrow> al ! nat (binary_search_loop al e low high) = e"
proof (induction al e low high rule: binary_search_loop.induct)
  case (1 al element low high)
  show ?case
  proof (cases "high \<ge> low")
    case False
    with "1.prems" show ?thesis by (simp add: binary_search_loop.simps)
  next
    case True
    define mid where "mid = low + (high - low) div 2"
    note step = binary_search_loop_step[OF True mid_def, of al element]
    consider (eq) "element = al ! mid"
      | (gt) "element \<noteq> al ! mid" "element > al ! mid"
      | (z) "element \<noteq> al ! mid" "\<not> element > al ! mid" "mid = 0"
      | (lt) "element \<noteq> al ! mid" "\<not> element > al ! mid" "mid \<noteq> 0"
      by blast
    then show ?thesis
    proof cases
      case eq
      with step show ?thesis by simp
    next
      case gt
      with "1.IH"(1)[OF True mid_def refl gt] "1.prems" step show ?thesis by simp
    next
      case z
      with step "1.prems" show ?thesis by simp
    next
      case lt
      with "1.IH"(2)[OF True mid_def refl lt] "1.prems" step show ?thesis by simp
    qed
  qed
qed

lemma binary_search_loop_complete:
  assumes "sorted al" and "high < length al"
  shows "low \<le> k \<Longrightarrow> k \<le> high \<Longrightarrow> al ! k = e \<Longrightarrow> 0 \<le> binary_search_loop al e low high"
  using assms
proof (induction al e low high rule: binary_search_loop.induct)
  case (1 al element low high)
  have lh: "low \<le> high" using "1.prems" by simp
  define mid where "mid = low + (high - low) div 2"
  have mid: "low \<le> mid" "mid \<le> high" using lh by (simp_all add: mid_def)
  note step = binary_search_loop_step[OF lh mid_def, of al element]
  consider (eq) "element = al ! mid"
    | (gt) "element \<noteq> al ! mid" "element > al ! mid"
    | (lt) "element \<noteq> al ! mid" "\<not> element > al ! mid"
    by blast
  then show ?case
  proof cases
    case eq
    with step show ?thesis by simp
  next
    case gt
    have "mid < k"
    proof (rule ccontr)
      assume "\<not> mid < k"
      then have "k \<le> mid" by simp
      then have "al ! k \<le> al ! mid"
        using "1.prems"(4,5) mid by (simp add: sorted_nth_mono)
      with gt "1.prems"(3) show False by simp
    qed
    then have "mid + 1 \<le> k" by simp
    from "1.IH"(1)[OF lh mid_def refl gt this "1.prems"(2,3,4,5)] gt step show ?thesis by simp
  next
    case lt
    then have l: "element < al ! mid" by simp
    have km: "k < mid"
    proof (rule ccontr)
      assume "\<not> k < mid"
      then have "mid \<le> k" by simp
      then have "al ! mid \<le> al ! k"
        using "1.prems"(2,4,5) by (simp add: sorted_nth_mono)
      with l "1.prems"(3) show False by simp
    qed
    then have m0: "mid \<noteq> 0" and k1: "k \<le> mid - 1" by simp_all
    have h: "mid - 1 < length al" using mid "1.prems"(5) by simp
    from "1.IH"(2)[OF lh mid_def refl lt m0 "1.prems"(1) k1 "1.prems"(3,4) h] lt m0 step
    show ?thesis by simp
  qed
qed

lemma allit_binary_search_index_found:
  "0 \<le> allit_binary_search_index al e \<Longrightarrow> al ! nat (allit_binary_search_index al e) = e"
  using binary_search_loop_found[of al e 0 "length al - 1"]
  by (auto simp: allit_binary_search_index_def split: if_splits)

lemma allit_binary_search_index_iff:
  assumes "sorted al"
  shows "0 \<le> allit_binary_search_index al e \<longleftrightarrow> e \<in> set al"
proof
  assume f: "0 \<le> allit_binary_search_index al e"
  from allit_binary_search_index_found[OF f] allit_binary_search_index_range[OF f]
  show "e \<in> set al" by (metis nth_mem)
next
  assume "e \<in> set al"
  then obtain k where k: "k < length al" "al ! k = e" by (auto simp: in_set_conv_nth)
  then have ne: "\<not> length al < 1" by (cases al) auto
  have "0 \<le> binary_search_loop al e 0 (length al - 1)"
    using binary_search_loop_complete[OF assms, of "length al - 1" 0 k e] k by simp
  with ne show "0 \<le> allit_binary_search_index al e"
    by (simp add: allit_binary_search_index_def)
qed

lemma binary_search_loop_ge: "- 1 \<le> binary_search_loop al e low high"
proof (induction al e low high rule: binary_search_loop.induct)
  case (1 al element low high)
  show ?case
  proof (cases "high \<ge> low")
    case False
    then show ?thesis by (simp add: binary_search_loop.simps)
  next
    case True
    define mid where "mid = low + (high - low) div 2"
    note step = binary_search_loop_step[OF True mid_def, of al element]
    show ?thesis
      using "1.IH"(1)[OF True mid_def refl] "1.IH"(2)[OF True mid_def refl] step
      by auto
  qed
qed

lemma allit_binary_search_contains_iff:
  assumes "sorted al"
  shows "allit_binary_search_contains al e \<longleftrightarrow> e \<in> set al"
proof -
  have "- 1 \<le> allit_binary_search_index al e"
    using binary_search_loop_ge[of al e 0 "length al - 1"]
    by (simp add: allit_binary_search_index_def)
  then have "allit_binary_search_index al e \<noteq> - 1 \<longleftrightarrow> 0 \<le> allit_binary_search_index al e"
    by auto
  with allit_binary_search_index_iff[OF assms, of e] show ?thesis
    by (simp add: allit_binary_search_contains_def)
qed

lemma allit_remove_sorted:
  assumes "sorted al"
  shows "sorted (allit_remove al k)"
proof -
  have "sorted (take k al @ drop k al)" using assms by simp
  then have cross: "\<forall>x \<in> set (take k al). \<forall>y \<in> set (drop k al). x \<le> y"
    unfolding sorted_append by blast
  have sub: "set (drop (Suc k) al) \<subseteq> set (drop k al)"
    by (rule set_drop_subset_set_drop) simp
  have "sorted (take k al)" and "sorted (drop (Suc k) al)"
    using assms by simp_all
  with cross sub show ?thesis
    unfolding allit_remove_def sorted_append by blast
qed

lemma allit_remove_set:
  assumes "k < length al"
  shows "set (allit_remove al k) \<subseteq> set al" and "set al \<subseteq> insert (al ! k) (set (allit_remove al k))"
proof -
  show "set (allit_remove al k) \<subseteq> set al"
    unfolding allit_remove_def by (auto dest: in_set_takeD in_set_dropD)
  have "al = take k al @ al ! k # drop (Suc k) al"
    using assms by (simp add: id_take_nth_drop)
  then have "set al = set (take k al @ al ! k # drop (Suc k) al)" by simp
  then have "set al = set (take k al) \<union> {al ! k} \<union> set (drop (Suc k) al)"
    unfolding set_append by simp
  then show "set al \<subseteq> insert (al ! k) (set (allit_remove al k))"
    unfolding allit_remove_def by auto
qed

lemma remove_all_occurrences_correct:
  "sorted V \<Longrightarrow> sorted (remove_all_occurrences V lit)
     \<and> set (remove_all_occurrences V lit) = set V - {lit}"
proof (induction V lit rule: remove_all_occurrences.induct)
  case (1 V lit)
  define idx where "idx = allit_binary_search_index V lit"
  show ?case
  proof (cases "idx \<ge> 0")
    case False
    then have "lit \<notin> set V"
      using allit_binary_search_index_iff[OF "1.prems", of lit] by (simp add: idx_def)
    moreover have "remove_all_occurrences V lit = V"
      using False by (subst remove_all_occurrences.simps) (simp add: idx_def Let_def)
    ultimately show ?thesis using "1.prems" by simp
  next
    case True
    have k: "nat idx < length V" and v: "V ! nat idx = lit"
      using True allit_binary_search_index_range[of V lit]
        allit_binary_search_index_found[of V lit] by (simp_all add: idx_def)
    have eq: "remove_all_occurrences V lit = remove_all_occurrences (allit_remove V (nat idx)) lit"
      using True by (subst remove_all_occurrences.simps) (simp add: idx_def Let_def)
    have s: "sorted (allit_remove V (nat idx))" by (rule allit_remove_sorted[OF "1.prems"])
    from "1.IH"[OF idx_def True s] allit_remove_set[OF k] v
    show ?thesis unfolding eq by auto
  qed
qed

lemma remove_negations_correct:
  "sorted V \<Longrightarrow> sorted (remove_negations V ann)
     \<and> set (remove_negations V ann) = set V - LIT_NEG ` set ann"
proof (induction ann arbitrary: V)
  case Nil
  then show ?case by simp
next
  case (Cons a ann)
  from remove_all_occurrences_correct[OF Cons.prems, of "LIT_NEG a"]
  have s: "sorted (remove_all_occurrences V (LIT_NEG a))"
    and e: "set (remove_all_occurrences V (LIT_NEG a)) = set V - {LIT_NEG a}" by simp_all
  from Cons.IH[OF s] e show ?case by auto
qed

lemma annotation_in_UV_iff:
  "sorted U \<Longrightarrow> sorted V \<Longrightarrow> annotation_in_UV U V ann \<longleftrightarrow> set ann \<subseteq> set U \<union> set V"
  by (auto simp: annotation_in_UV_def list_all_iff allit_binary_search_contains_iff)

lemma find_var_in_clause_None:
  "find_var_in_clause u Q = None \<longleftrightarrow> (\<forall>l \<in> set Q. LIT2VAR l \<noteq> u)"
  by (induction Q) auto

lemma find_var_in_clause_Some:
  "find_var_in_clause u Q = Some l \<longleftrightarrow> first_literal_over Q u l"
proof (induction Q)
  case Nil
  show ?case by (simp add: first_literal_over_def)
next
  case (Cons x Q)
  show ?case
  proof (cases "u = LIT2VAR x")
    case True
    have "first_literal_over (x # Q) u l \<longleftrightarrow> l = x"
    proof
      assume "first_literal_over (x # Q) u l"
      then obtain j where j: "j < length (x # Q)" "(x # Q) ! j = l" "LIT2VAR l = u"
        "\<forall>i < j. LIT2VAR ((x # Q) ! i) \<noteq> u"
        by (auto simp: first_literal_over_def)
      have "j = 0"
      proof (rule ccontr)
        assume "j \<noteq> 0"
        then have "0 < j" by simp
        with j(4) have "LIT2VAR ((x # Q) ! 0) \<noteq> u" by blast
        with True show False by simp
      qed
      with j(2) show "l = x" by simp
    next
      assume "l = x"
      with True show "first_literal_over (x # Q) u l"
        by (auto simp: first_literal_over_def intro!: exI[of _ 0])
    qed
    with True show ?thesis by auto
  next
    case False
    have "first_literal_over (x # Q) u l \<longleftrightarrow> first_literal_over Q u l"
    proof
      assume "first_literal_over (x # Q) u l"
      then obtain j where j: "j < length (x # Q)" "(x # Q) ! j = l" "LIT2VAR l = u"
        "\<forall>i < j. LIT2VAR ((x # Q) ! i) \<noteq> u"
        by (auto simp: first_literal_over_def)
      from j(2,3) False have "j \<noteq> 0" by (cases j) auto
      then obtain j' where j': "j = Suc j'" by (cases j) auto
      have "\<forall>i < j'. LIT2VAR (Q ! i) \<noteq> u"
      proof (intro allI impI)
        fix i assume "i < j'"
        then have "Suc i < j" using j' by simp
        with j(4) have "LIT2VAR ((x # Q) ! Suc i) \<noteq> u" by blast
        then show "LIT2VAR (Q ! i) \<noteq> u" by simp
      qed
      with j j' show "first_literal_over Q u l"
        by (auto simp: first_literal_over_def intro!: exI[of _ j'])
    next
      assume "first_literal_over Q u l"
      then obtain j where j: "j < length Q" "Q ! j = l" "LIT2VAR l = u"
        "\<forall>i < j. LIT2VAR (Q ! i) \<noteq> u"
        by (auto simp: first_literal_over_def)
      have "\<forall>i < Suc j. LIT2VAR ((x # Q) ! i) \<noteq> u"
      proof (intro allI impI)
        fix i assume i: "i < Suc j"
        show "LIT2VAR ((x # Q) ! i) \<noteq> u"
        proof (cases i)
          case 0
          with False show ?thesis by auto
        next
          case (Suc i')
          with i j(4) show ?thesis by simp
        qed
      qed
      with j show "first_literal_over (x # Q) u l"
        by (auto simp: first_literal_over_def intro!: exI[of _ "Suc j"])
    qed
    with False Cons.IH show ?thesis by simp
  qed
qed

lemma negated_first_literals_simps:
  "negated_first_literals Q [] = {}"
  "negated_first_literals Q (u # vars) =
     (case find_var_in_clause u Q of None \<Rightarrow> {} | Some l \<Rightarrow> {LIT_NEG l})
       \<union> negated_first_literals Q vars"
  "negated_first_literals Q (xs @ ys) =
     negated_first_literals Q xs \<union> negated_first_literals Q ys"
proof -
  show "negated_first_literals Q [] = {}" by (simp add: negated_first_literals_def)
  show "negated_first_literals Q (xs @ ys) =
     negated_first_literals Q xs \<union> negated_first_literals Q ys"
    by (auto simp: negated_first_literals_def)
  show "negated_first_literals Q (u # vars) =
     (case find_var_in_clause u Q of None \<Rightarrow> {} | Some l \<Rightarrow> {LIT_NEG l})
       \<union> negated_first_literals Q vars"
  proof (cases "find_var_in_clause u Q")
    case None
    then have "\<And>l. \<not> first_literal_over Q u l"
      using find_var_in_clause_Some[of u Q] by simp
    with None show ?thesis by (auto simp: negated_first_literals_def)
  next
    case (Some l)
    have "first_literal_over Q u l' \<longleftrightarrow> l' = l" for l'
      using find_var_in_clause_Some[of u Q l'] Some by auto
    with Some show ?thesis by (auto simp: negated_first_literals_def)
  qed
qed

lemma both_polarities_simps:
  "both_polarities Q [] = {}"
  "both_polarities Q (u # vars) =
     (case find_var_in_clause u Q of None \<Rightarrow> {VAR2LIT u 0, VAR2LIT u 1} | Some l \<Rightarrow> {})
       \<union> both_polarities Q vars"
  "both_polarities Q (xs @ ys) = both_polarities Q xs \<union> both_polarities Q ys"
proof -
  show "both_polarities Q [] = {}" by (simp add: both_polarities_def)
  show "both_polarities Q (xs @ ys) = both_polarities Q xs \<union> both_polarities Q ys"
    by (auto simp: both_polarities_def)
  show "both_polarities Q (u # vars) =
     (case find_var_in_clause u Q of None \<Rightarrow> {VAR2LIT u 0, VAR2LIT u 1} | Some l \<Rightarrow> {})
       \<union> both_polarities Q vars"
  proof (cases "find_var_in_clause u Q")
    case None
    then have "\<forall>l \<in> set Q. LIT2VAR l \<noteq> u" by (simp add: find_var_in_clause_None)
    with None show ?thesis by (auto simp: both_polarities_def)
  next
    case (Some l)
    then have "\<not> (\<forall>l \<in> set Q. LIT2VAR l \<noteq> u)"
      using find_var_in_clause_None[of u Q] by simp
    with Some show ?thesis by (auto simp: both_polarities_def)
  qed
qed

lemma add_quant_vars_refines:
  "sorted U \<Longrightarrow> sorted V \<Longrightarrow>
     \<exists>U' V'. add_quant_vars Q vars (U, V, n) = (U', V', n + length vars)
       \<and> sorted U' \<and> sorted V'
       \<and> set U' = set U \<union> negated_first_literals Q vars
       \<and> set V' = set V \<union> both_polarities Q vars"
proof (induction vars arbitrary: U V n)
  case Nil
  then show ?case by (simp add: negated_first_literals_simps both_polarities_simps)
next
  case (Cons u vars)
  show ?case
  proof (cases "find_var_in_clause u Q")
    case None
    let ?V1 = "allit_insert_sorted (allit_insert_sorted V (VAR2LIT u 0)) (VAR2LIT u 1)"
    have s: "sorted ?V1" using Cons.prems(2) by (simp add: allit_insert_sorted_sorted)
    from Cons.IH[OF Cons.prems(1) s, of "n + 1"] None show ?thesis
      by (auto simp: negated_first_literals_simps both_polarities_simps
            allit_insert_sorted_set)
  next
    case (Some l)
    let ?U1 = "allit_insert_sorted U (LIT_NEG l)"
    have s: "sorted ?U1" using Cons.prems(1) by (simp add: allit_insert_sorted_sorted)
    from Cons.IH[OF s Cons.prems(2), of "n + 1"] Some show ?thesis
      by (auto simp: negated_first_literals_simps both_polarities_simps
            allit_insert_sorted_set)
  qed
qed

lemma universal_vars_between_step:
  assumes "j < cq" and "cq \<le> length (prefix qbf)"
  shows "universal_vars_between qbf j cq =
     (if quant_type (prefix qbf ! j) = QUANT_TYPE_UNIVERSAL then variables (prefix qbf ! j) else [])
       @ universal_vars_between qbf (j + 1) cq"
proof -
  have j: "j < length (prefix qbf)" using assms by simp
  have d: "drop j (prefix qbf) = prefix qbf ! j # drop (j + 1) (prefix qbf)"
    using j by (simp add: Cons_nth_drop_Suc)
  have c: "cq - j = Suc (cq - (j + 1))" using assms by simp
  have "take (cq - j) (drop j (prefix qbf)) =
          prefix qbf ! j # take (cq - (j + 1)) (drop (j + 1) (prefix qbf))"
    unfolding c by (subst d) simp
  then show ?thesis by (simp add: universal_vars_between_def)
qed

lemma universal_vars_between_empty: "cq \<le> j \<Longrightarrow> universal_vars_between qbf j cq = []"
  by (simp add: universal_vars_between_def)

lemma add_quantifiers_refines:
  "cq \<le> length (prefix qbf) \<Longrightarrow> sorted U \<Longrightarrow> sorted V \<Longrightarrow>
     \<exists>U' V'. add_quantifiers qbf Q j cq (U, V, n) =
                Inr (U', V', n + length (universal_vars_between qbf j cq))
       \<and> sorted U' \<and> sorted V'
       \<and> set U' = set U \<union> negated_first_literals Q (universal_vars_between qbf j cq)
       \<and> set V' = set V \<union> both_polarities Q (universal_vars_between qbf j cq)"
proof (induction "cq - j" arbitrary: j U V n)
  case 0
  then have "\<not> j < cq" by simp
  then show ?case
    using "0.prems"
    by (subst add_quantifiers.simps)
       (simp add: universal_vars_between_empty negated_first_literals_simps
          both_polarities_simps)
next
  case (Suc k)
  then have jc: "j < cq" by simp
  with Suc.prems(1) have jl: "j < length (prefix qbf)" by simp
  have k: "k = cq - (j + 1)" using Suc.hyps(2) by simp
  note ub = universal_vars_between_step[OF jc Suc.prems(1)]
  show ?case
  proof (cases "quant_type (prefix qbf ! j) \<noteq> QUANT_TYPE_UNIVERSAL")
    case ne: True
    have eq: "add_quantifiers qbf Q j cq (U, V, n) = add_quantifiers qbf Q (j + 1) cq (U, V, n)"
      using jc jl ne by (subst add_quantifiers.simps) (simp add: Let_def)
    from Suc.hyps(1)[OF k Suc.prems, of n] ne show ?thesis
      unfolding eq ub by simp
  next
    case u: False
    obtain U1 V1 where av: "add_quant_vars Q (variables (prefix qbf ! j)) (U, V, n) =
          (U1, V1, n + length (variables (prefix qbf ! j)))"
      and s1: "sorted U1" "sorted V1"
      and e1: "set U1 = set U \<union> negated_first_literals Q (variables (prefix qbf ! j))"
        "set V1 = set V \<union> both_polarities Q (variables (prefix qbf ! j))"
      using add_quant_vars_refines[OF Suc.prems(2,3), of Q "variables (prefix qbf ! j)" n]
      by blast
    have eq: "add_quantifiers qbf Q j cq (U, V, n) =
              add_quantifiers qbf Q (j + 1) cq (U1, V1, n + length (variables (prefix qbf ! j)))"
      using jc jl u av by (subst add_quantifiers.simps) (simp add: Let_def)
    from Suc.hyps(1)[OF k Suc.prems(1) s1, of "n + length (variables (prefix qbf ! j))"] u e1
    show ?thesis
      unfolding eq ub
      by (auto simp: negated_first_literals_simps both_polarities_simps)
  qed
qed

lemma universal_vars_between_split:
  assumes "a \<le> b" and "b \<le> c"
  shows "universal_vars_between qbf a c =
           universal_vars_between qbf a b @ universal_vars_between qbf b c"
proof -
  have c: "c - a = (b - a) + (c - b)" using assms by simp
  have "take (c - a) (drop a (prefix qbf)) =
          take (b - a) (drop a (prefix qbf)) @ take (c - b) (drop b (prefix qbf))"
    unfolding c take_add using assms by simp
  then show ?thesis by (simp add: universal_vars_between_def)
qed

lemma universal_vars_before_split:
  "a \<le> b \<Longrightarrow> universal_vars_before qbf b =
     universal_vars_before qbf a @ universal_vars_between qbf a b"
  unfolding universal_vars_before_def by (rule universal_vars_between_split) simp_all

lemma annotations_loop_refines:
  assumes wf: "orderings_in_prefix qbf"
  shows "all_mapped expansion E \<Longrightarrow>
     sorted (map (mapped_ordering qbf expansion) E) \<Longrightarrow>
     \<forall>e \<in> set E. reached \<le> mapped_ordering qbf expansion e
        \<or> prefix_mapping qbf (qbf_var (the (exp_var_mappings expansion (LIT2VAR e)))) = None \<Longrightarrow>
     sorted U \<Longrightarrow> sorted V \<Longrightarrow>
     set U = negated_first_literals Q (universal_vars_before qbf reached) \<Longrightarrow>
     n = length (universal_vars_before qbf reached) \<Longrightarrow>
     annotations_loop Q qbf expansion E reached (U, V, n) =
       Inr (annotations_admissible negated_first_literals qbf expansion Q E reached (set V))"
proof (induction E arbitrary: reached U V n)
  case Nil
  show ?case by simp
next
  case (Cons e E)
  from Cons.prems(1) obtain m where m: "exp_var_mappings expansion (LIT2VAR e) = Some m"
    and rest: "all_mapped expansion E"
    by (auto simp: all_mapped_def)
  have srt: "sorted (map (mapped_ordering qbf expansion) E)" using Cons.prems(2) by simp
  show ?case
  proof (cases "prefix_mapping qbf (qbf_var m)")
    case None
    have r: "\<forall>e \<in> set E. reached \<le> mapped_ordering qbf expansion e
        \<or> prefix_mapping qbf (qbf_var (the (exp_var_mappings expansion (LIT2VAR e)))) = None"
      using Cons.prems(3) by simp
    from Cons.IH[OF rest srt r Cons.prems(4,5,6,7)] m None show ?thesis by auto
  next
    case (Some quant)
    define cq where "cq = ordering quant"
    have key: "mapped_ordering qbf expansion e = cq"
      using m Some by (simp add: mapped_ordering_def cq_def)
    have le: "reached \<le> cq" using Cons.prems(3) m Some key by auto
    have cl: "cq \<le> length (prefix qbf)"
      using wf Some by (auto simp: orderings_in_prefix_def cq_def)
    obtain U' V' where aq: "add_quantifiers qbf Q reached cq (U, V, n) =
                Inr (U', V', n + length (universal_vars_between qbf reached cq))"
       and s': "sorted U'" "sorted V'"
       and eU: "set U' = set U \<union> negated_first_literals Q (universal_vars_between qbf reached cq)"
       and eV: "set V' = set V \<union> both_polarities Q (universal_vars_between qbf reached cq)"
      using add_quantifiers_refines[OF cl Cons.prems(4,5), of Q reached n] by blast
    note sp = universal_vars_before_split[OF le, of qbf]
    have eU': "set U' = negated_first_literals Q (universal_vars_before qbf cq)"
      unfolding eU Cons.prems(6) sp by (simp add: negated_first_literals_simps)
    have n': "n + length (universal_vars_between qbf reached cq)
                = length (universal_vars_before qbf cq)"
      unfolding Cons.prems(7) sp by simp
    have rn: "sorted (remove_negations V' (annotation m))"
      "set (remove_negations V' (annotation m)) = set V' - LIT_NEG ` set (annotation m)"
      using remove_negations_correct[OF s'(2), of "annotation m"] by simp_all
    have r: "\<forall>e \<in> set E. cq \<le> mapped_ordering qbf expansion e
        \<or> prefix_mapping qbf (qbf_var (the (exp_var_mappings expansion (LIT2VAR e)))) = None"
      using Cons.prems(2) key by auto
    note IH = Cons.IH[OF rest srt r s'(1) rn(1) eU' refl]
    have code: "annotations_loop Q qbf expansion (e # E) reached (U, V, n) =
       (if length (annotation m) \<noteq> length (universal_vars_before qbf cq) then Inr False
        else if \<not> set (annotation m) \<subseteq> set U' \<union> set V' then Inr False
        else annotations_loop Q qbf expansion E cq
               (U', remove_negations V' (annotation m), length (universal_vars_before qbf cq)))"
      using m Some aq n' annotation_in_UV_iff[OF s', of "annotation m"]
      by (simp add: cq_def[symmetric] Let_def)
    have spec: "annotations_admissible negated_first_literals qbf expansion Q (e # E) reached (set V) =
       (length (annotation m) = length (universal_vars_before qbf cq)
        \<and> set (annotation m) \<subseteq> set U' \<union> set V'
        \<and> annotations_admissible negated_first_literals qbf expansion Q E cq
            (set V' - LIT_NEG ` set (annotation m)))"
      using m Some by (simp add: cq_def[symmetric] eU' eV)
    show ?thesis
      unfolding code spec using IH n' by (simp add: rn(2))
  qed
qed

lemma same_variable_literals:
  "LIT2VAR l = LIT2VAR l' \<Longrightarrow> l' = l \<or> l' = LIT_NEG l"
  unfolding LIT2VAR_def LIT_NEG_def
proof -
  assume a: "drop_bit 1 l = drop_bit 1 l'"
  have r: "\<And>n. bit l (Suc n) = bit l' (Suc n)"
  proof -
    fix n
    have "bit (drop_bit 1 l) n = bit (drop_bit 1 l') n" using a by simp
    then show "bit l (Suc n) = bit l' (Suc n)" by (simp add: bit_drop_bit_eq)
  qed
  show "l' = l \<or> l' = l XOR 1"
  proof (cases "bit l 0 = bit l' 0")
    case True
    have "l' = l"
    proof (rule bit_eqI)
      fix n show "bit l' n = bit l n" using True r by (cases n) simp_all
    qed
    then show ?thesis by simp
  next
    case False
    have "l' = l XOR 1"
    proof (rule bit_eqI)
      fix n show "bit l' n = bit (l XOR 1) n"
        using False r by (cases n) (auto simp: bit_xor_iff bit_1_iff)
    qed
    then show ?thesis by simp
  qed
qed

lemma find_var_in_clause_single:
  assumes "no_complementary_literals Q"
  shows "find_var_in_clause u Q = Some l \<longleftrightarrow> l \<in> set Q \<and> LIT2VAR l = u"
proof
  assume "find_var_in_clause u Q = Some l"
  then show "l \<in> set Q \<and> LIT2VAR l = u"
    by (auto simp: find_var_in_clause_Some first_literal_over_def)
next
  assume a: "l \<in> set Q \<and> LIT2VAR l = u"
  then have "find_var_in_clause u Q \<noteq> None" by (auto simp: find_var_in_clause_None)
  then obtain l' where f: "find_var_in_clause u Q = Some l'" by auto
  then have l': "l' \<in> set Q" "LIT2VAR l' = u"
    by (auto simp: find_var_in_clause_Some first_literal_over_def)
  with a same_variable_literals[of l l'] have "l' = l \<or> l' = LIT_NEG l" by simp
  moreover have "l' \<noteq> LIT_NEG l"
    using assms a l'(1) by (auto simp: no_complementary_literals_def)
  ultimately show "find_var_in_clause u Q = Some l" using f by simp
qed

lemma negated_first_literals_all:
  assumes "no_complementary_literals Q"
  shows "negated_first_literals Q vars = negated_all_literals Q vars"
  using find_var_in_clause_single[OF assms]
  by (auto simp: negated_first_literals_def negated_all_literals_def
        find_var_in_clause_Some[symmetric])

lemma negated_all_literals_simps:
  "negated_all_literals [] vars = {}"
  "negated_all_literals (l # Q) vars =
     (if LIT2VAR l \<in> set vars then {LIT_NEG l} else {}) \<union> negated_all_literals Q vars"
  by (auto simp: negated_all_literals_def)

lemma annotations_admissible_cong:
  "(\<And>vars. U1 Q vars = U2 Q vars) \<Longrightarrow>
     annotations_admissible U1 qbf expansion Q E reached V =
       annotations_admissible U2 qbf expansion Q E reached V"
  by (induction E arbitrary: reached V) (simp_all split: option.splits)

lemma annotation_test_refines:
  assumes "all_mapped expansion exp_clause"
    and "orderings_in_prefix qbf"
    and "sorted (map (mapped_ordering qbf expansion) exp_clause)"
  shows "ferat_check_annotations_against_expansion qbf_clause exp_clause qbf expansion =
           Inr (annotations_admissible negated_first_literals qbf expansion qbf_clause
                  exp_clause 0 {})"
proof -
  have u0: "universal_vars_before qbf 0 = []"
    by (simp add: universal_vars_before_def universal_vars_between_def)
  have "annotations_loop qbf_clause qbf expansion exp_clause 0 ([], [], 0) =
          Inr (annotations_admissible negated_first_literals qbf expansion qbf_clause
                 exp_clause 0 (set []))"
    by (rule annotations_loop_refines[OF assms(2,1,3)])
       (simp_all add: u0 negated_first_literals_simps)
  then show ?thesis
    by (simp add: ferat_check_annotations_against_expansion_def)
qed

lemmas annotation_eval =
  universal_vars_before_def universal_vars_between_def mapped_ordering_def
  negated_all_literals_simps both_polarities_simps no_complementary_literals_def

text \<open>
  Claim C2, as stated, fails for a clause that holds a universal variable in both
  polarities. Over the prefix \<open>a 1 0\<close>, \<open>e 2 3 0\<close> take the QBF clause
  \<open>1 -1 2 0\<close>, which the matrix sort leaves as it is, and the expansion clause
  \<open>1 0\<close> whose variable is mapped to the QBF variable 2 under the annotation \<open>1\<close>.
  The existential-literal test passes, the annotation has the length 1 of the one
  universal variable before the binding quantifier, and its literal is the negation of the
  clause literal \<open>-1\<close>, so the condition holds with the negation of each clause literal
  in \<open>U\<close>. The annotation test searches the clause for the variable from the front,
  enters the negation of \<open>1\<close> only, and returns false; on the clause \<open>-1 1 2 0\<close> it
  returns true.
\<close>

theorem first_literal_decides_counterexample:
  "all_mapped (example_expansion [2] None) [2]
   \<and> sorted (map (mapped_ordering example_qbf (example_expansion [2] None)) [2])
   \<and> iterative_inplace_quickort (qbf_get_quant_ordering_from_index_partial example_qbf)
        [2, 3, 4] = [2, 3, 4]
   \<and> passes_existential_test example_qbf (example_expansion [2] None) [2] [2, 3, 4]
   \<and> annotations_admissible negated_all_literals example_qbf (example_expansion [2] None)
        [2, 3, 4] [2] 0 {}
   \<and> ferat_check_annotations_against_expansion [2, 3, 4] [2] example_qbf
        (example_expansion [2] None) = Inr False
   \<and> ferat_check_annotations_against_expansion [3, 2, 4] [2] example_qbf
        (example_expansion [2] None) = Inr True"
proof -
  have m: "all_mapped (example_expansion [2] None) [2]" by (simp add: checker_eval)
  have s: "sorted (map (mapped_ordering example_qbf (example_expansion [2] None)) [2])"
    by simp
  have q: "iterative_inplace_quickort (qbf_get_quant_ordering_from_index_partial example_qbf)
        [2, 3, 4] = [2, 3, 4]"
    by (simp add: sort_eval qbf_get_quant_ordering_from_index_partial_def example_qbf_def
          LIT2VAR_def Let_def)
  have t: "passes_existential_test example_qbf (example_expansion [2] None) [2] [2, 3, 4]"
    by (simp add: checker_eval)
  have a: "annotations_admissible negated_all_literals example_qbf (example_expansion [2] None)
        [2, 3, 4] [2] 0 {}"
    by (simp add: annotation_eval example_qbf_def example_expansion_def LIT2VAR_def
          LIT_NEG_def VAR2LIT_def)
  have c1: "ferat_check_annotations_against_expansion [2, 3, 4] [2] example_qbf
        (example_expansion [2] None) = Inr False"
    and c2: "ferat_check_annotations_against_expansion [3, 2, 4] [2] example_qbf
        (example_expansion [2] None) = Inr True"
    by (simp_all add: checker_eval)
  from m s q t a c1 c2 show ?thesis by simp
qed

text \<open>
  Claim C2, amended. Let every literal of the expansion clause have a mapping record, let
  the literals be sorted by the quantifier ordering of their mapped variables, and let no
  ordering of the formula exceed the length of the prefix. Then the annotation test
  returns, and it returns true exactly when, processing the clause in order from an empty
  \<open>V\<close>: for every literal whose mapped variable is bound, the annotation has as many
  literals as there are universal variables in the blocks at the prefix positions below
  the ordering of the binding quantifier, and every annotation literal lies in
  \<open>U \<union> V\<close>, where \<open>U\<close> holds, for
  each of these universal variables that occurs in the QBF clause, the negation of the
  first clause literal over it, \<open>V\<close> holds both polarities of those that do not occur,
  and the negations of the annotation literals are removed from \<open>V\<close> after each
  literal; and for every literal whose mapped variable is free the annotation is empty.
  For a QBF clause that holds no literal together with its negation, \<open>U\<close> is the set of
  the negations of all clause literals over these variables.
\<close>

theorem annotation_test_characterisation:
  assumes "all_mapped expansion exp_clause"
    and "orderings_in_prefix qbf"
    and "sorted (map (mapped_ordering qbf expansion) exp_clause)"
  shows "ferat_check_annotations_against_expansion qbf_clause exp_clause qbf expansion =
           Inr (annotations_admissible negated_first_literals qbf expansion qbf_clause
                  exp_clause 0 {})
       \<and> (no_complementary_literals qbf_clause \<longrightarrow>
            ferat_check_annotations_against_expansion qbf_clause exp_clause qbf expansion =
              Inr (annotations_admissible negated_all_literals qbf expansion qbf_clause
                     exp_clause 0 {}))"
  using annotation_test_refines[OF assms, of qbf_clause]
    annotations_admissible_cong[of negated_first_literals qbf_clause negated_all_literals,
      OF negated_first_literals_all]
  by simp

theorem annotation_test_characterisation_witness:
  "all_mapped (example_expansion [3] None) [2, 4]
   \<and> orderings_in_prefix example_qbf
   \<and> sorted (map (mapped_ordering example_qbf (example_expansion [3] None)) [2, 4])
   \<and> no_complementary_literals [2, 4, 6]
   \<and> ferat_check_annotations_against_expansion [2, 4, 6] [2, 4] example_qbf
        (example_expansion [3] None) = Inr True
   \<and> annotations_admissible negated_first_literals example_qbf (example_expansion [3] None)
        [2, 4, 6] [2, 4] 0 {}
   \<and> annotations_admissible negated_all_literals example_qbf (example_expansion [3] None)
        [2, 4, 6] [2, 4] 0 {}
   \<and> all_mapped (example_expansion [2] None) [2, 4]
   \<and> sorted (map (mapped_ordering example_qbf (example_expansion [2] None)) [2, 4])
   \<and> ferat_check_annotations_against_expansion [2, 4, 6] [2, 4] example_qbf
        (example_expansion [2] None) = Inr False
   \<and> \<not> annotations_admissible negated_first_literals example_qbf (example_expansion [2] None)
        [2, 4, 6] [2, 4] 0 {}
   \<and> \<not> annotations_admissible negated_all_literals example_qbf (example_expansion [2] None)
        [2, 4, 6] [2, 4] 0 {}"
proof -
  have m1: "all_mapped (example_expansion [3] None) [2, 4]"
    and m2: "all_mapped (example_expansion [2] None) [2, 4]"
    by (simp_all add: checker_eval)
  have p: "orderings_in_prefix example_qbf" by (simp add: checker_eval)
  have s1: "sorted (map (mapped_ordering example_qbf (example_expansion [3] None)) [2, 4])"
    and s2: "sorted (map (mapped_ordering example_qbf (example_expansion [2] None)) [2, 4])"
    by (simp_all add: mapped_ordering_def example_qbf_def example_expansion_def LIT2VAR_def)
  have n: "no_complementary_literals [2, 4, 6]"
    by (simp add: no_complementary_literals_def LIT_NEG_def)
  have c1: "ferat_check_annotations_against_expansion [2, 4, 6] [2, 4] example_qbf
        (example_expansion [3] None) = Inr True"
    and c2: "ferat_check_annotations_against_expansion [2, 4, 6] [2, 4] example_qbf
        (example_expansion [2] None) = Inr False"
    by (simp_all add: checker_eval)
  show ?thesis
    using annotation_test_characterisation[OF m1 p s1, of "[2, 4, 6]"]
      annotation_test_characterisation[OF m2 p s2, of "[2, 4, 6]"] m1 m2 p s1 s2 n c1 c2
    by simp
qed

section \<open>Presence and absence of the origin map\<close>

lemma exp_lits_in_clause_origins:
  "exp_lits_in_clause Q (expansion\<lparr>clause_origins := x\<rparr>) E = exp_lits_in_clause Q expansion E"
  by (induction E) (auto simp: Let_def split: option.splits)

lemma annotations_loop_origins:
  "annotations_loop Q qbf (expansion\<lparr>clause_origins := x\<rparr>) E lq s =
     annotations_loop Q qbf expansion E lq s"
  by (induction E arbitrary: lq s) (auto simp: Let_def split: option.splits sum.splits)

lemma passes_tests_origins:
  "passes_existential_test qbf (expansion\<lparr>clause_origins := x\<rparr>) E Q =
     passes_existential_test qbf expansion E Q"
  "passes_annotation_test qbf (expansion\<lparr>clause_origins := x\<rparr>) E Q =
     passes_annotation_test qbf expansion E Q"
  by (simp_all add: passes_existential_test_def passes_annotation_test_def
        ferat_test_expansion_origin_in_QBF_def ferat_check_annotations_against_expansion_def
        exp_lits_in_clause_origins annotations_loop_origins)

lemma all_mapped_origins:
  "all_mapped (expansion\<lparr>clause_origins := x\<rparr>) E = all_mapped expansion E"
  by (simp add: all_mapped_def)

lemma all_mapped_sorted:
  "all_mapped expansion (iterative_inplace_quickort key E) = all_mapped expansion E"
proof -
  have "set (iterative_inplace_quickort key E) = set E"
    using iterative_inplace_quickort_correct[of key E] by (metis set_mset_mset)
  then show ?thesis by (simp add: all_mapped_def)
qed

lemma matrix_loop_origin:
  assumes "clause_origins expansion = Some origins" and "idx < length origins"
    and "origins ! idx < length (matrix qbf)"
    and "all_mapped expansion E" and "orderings_in_prefix qbf"
  shows "matrix_loop E idx qbf 0 False expansion =
     Inr (expansion,
          if passes_existential_test qbf expansion E (matrix qbf ! (origins ! idx))
          then (if passes_annotation_test qbf expansion E (matrix qbf ! (origins ! idx))
                then None else Some True)
          else Some False)"
proof -
  have m: "0 < length (matrix qbf)" using assms(3) by (cases "matrix qbf") auto
  have o: "\<not> 0 \<ge> length origins" using assms(2) by (cases origins) auto
  show ?thesis
    apply (subst matrix_loop.simps)
    using m o assms(1,2,3) check_candidate_cases[OF assms(4,5), of "matrix qbf ! (origins ! idx)" False]
    by (simp add: Let_def)
qed

lemma check_clauses_origin:
  assumes "clause_origins expansion = Some origins" and "orderings_in_prefix qbf"
  shows "\<forall>c \<in> set clauses. all_mapped expansion c \<Longrightarrow>
     idx + length clauses \<le> length origins \<Longrightarrow>
     \<forall>k < length clauses. origins ! (idx + k) < length (matrix qbf) \<Longrightarrow>
     \<exists>result'. check_clauses qbf clauses idx expansion result = Inr (expansion, result')
       \<and> num_results result \<le> num_results result'
       \<and> (num_results result' = num_results result \<longleftrightarrow>
            (\<forall>k < length clauses.
               origin_clause_passes qbf expansion origins
                 (iterative_inplace_quickort sort_identity (clauses ! k)) (idx + k)))"
proof (induction clauses arbitrary: idx result)
  case Nil
  show ?case by simp
next
  case (Cons c clauses)
  let ?E = "iterative_inplace_quickort sort_identity c"
  have am: "all_mapped expansion ?E" using Cons.prems(1) by (simp add: all_mapped_sorted)
  have i1: "idx < length origins" using Cons.prems(2) by simp
  have i2: "origins ! idx < length (matrix qbf)" using Cons.prems(3) by force
  note ml = matrix_loop_origin[OF assms(1) i1 i2 am assms(2)]
  define r1 where "r1 = (if origin_clause_passes qbf expansion origins ?E idx then result
     else if passes_existential_test qbf expansion ?E (matrix qbf ! (origins ! idx))
          then ferat_insert_check_result result FERAT_CHECK_RESULT_INCORRECT_ANNOTATION idx
          else ferat_insert_check_result result FERAT_CHECK_RESULT_INCORRECT_LITERALS idx)"
  have step: "ferat_check_expansion_clause ?E idx expansion qbf result = Inr (expansion, r1)"
    using ml by (auto simp: ferat_check_expansion_clause_def r1_def origin_clause_passes_def)
  have n1: "num_results r1 = (if origin_clause_passes qbf expansion origins ?E idx
                               then num_results result else num_results result + 1)"
    by (simp add: r1_def ferat_insert_check_result_def)
  have p1: "\<forall>c \<in> set clauses. all_mapped expansion c" using Cons.prems(1) by simp
  have p2: "(idx + 1) + length clauses \<le> length origins" using Cons.prems(2) by simp
  have p3: "\<forall>k < length clauses. origins ! ((idx + 1) + k) < length (matrix qbf)"
    using Cons.prems(3) by (auto dest: spec[of _ "Suc _"])
  from Cons.IH[OF p1 p2 p3, of r1] obtain result' where
    r: "check_clauses qbf clauses (idx + 1) expansion r1 = Inr (expansion, result')"
    and mono: "num_results r1 \<le> num_results result'"
    and iff: "num_results result' = num_results r1 \<longleftrightarrow>
            (\<forall>k < length clauses.
               origin_clause_passes qbf expansion origins
                 (iterative_inplace_quickort sort_identity (clauses ! k)) ((idx + 1) + k))"
    by blast
  have all: "(\<forall>k < length (c # clauses).
               origin_clause_passes qbf expansion origins
                 (iterative_inplace_quickort sort_identity ((c # clauses) ! k)) (idx + k))
     \<longleftrightarrow> (origin_clause_passes qbf expansion origins ?E idx
          \<and> (\<forall>k < length clauses.
               origin_clause_passes qbf expansion origins
                 (iterative_inplace_quickort sort_identity (clauses ! k)) ((idx + 1) + k)))"
    by (simp add: All_less_Suc2)
  show ?case
    using step r mono iff n1 unfolding all by (auto split: if_splits)
qed

lemma check_clauses_iterative:
  assumes "clause_origins expansion = None" and "orderings_in_prefix qbf"
  shows "\<forall>c \<in> set clauses. all_mapped expansion c \<Longrightarrow>
     \<exists>result'. check_clauses qbf clauses idx expansion result = Inr (expansion, result')
       \<and> num_results result \<le> num_results result'
       \<and> (num_results result' = num_results result \<longleftrightarrow>
            (\<forall>k < length clauses.
               some_clause_passes qbf expansion
                 (iterative_inplace_quickort sort_identity (clauses ! k))))"
proof (induction clauses arbitrary: idx result)
  case Nil
  show ?case by simp
next
  case (Cons c clauses)
  let ?E = "iterative_inplace_quickort sort_identity c"
  have am: "all_mapped expansion ?E" using Cons.prems(1) by (simp add: all_mapped_sorted)
  note ml = matrix_loop_iterative[OF assms(1) am assms(2), of idx 0 False]
  define r1 where "r1 = (if some_clause_passes qbf expansion ?E then result
     else if \<exists>Q \<in> set (matrix qbf). passes_existential_test qbf expansion ?E Q
          then ferat_insert_check_result result FERAT_CHECK_RESULT_INCORRECT_ANNOTATION idx
          else ferat_insert_check_result result FERAT_CHECK_RESULT_INCORRECT_LITERALS idx)"
  have step: "ferat_check_expansion_clause ?E idx expansion qbf result = Inr (expansion, r1)"
    using ml by (auto simp: ferat_check_expansion_clause_def r1_def some_clause_passes_def)
  have n1: "num_results r1 = (if some_clause_passes qbf expansion ?E
                               then num_results result else num_results result + 1)"
    by (simp add: r1_def ferat_insert_check_result_def)
  have p1: "\<forall>c \<in> set clauses. all_mapped expansion c" using Cons.prems(1) by simp
  from Cons.IH[OF p1, of "idx + 1" r1] obtain result' where
    r: "check_clauses qbf clauses (idx + 1) expansion r1 = Inr (expansion, result')"
    and mono: "num_results r1 \<le> num_results result'"
    and iff: "num_results result' = num_results r1 \<longleftrightarrow>
            (\<forall>k < length clauses.
               some_clause_passes qbf expansion
                 (iterative_inplace_quickort sort_identity (clauses ! k)))"
    by blast
  have all: "(\<forall>k < length (c # clauses).
               some_clause_passes qbf expansion
                 (iterative_inplace_quickort sort_identity ((c # clauses) ! k)))
     \<longleftrightarrow> (some_clause_passes qbf expansion ?E
          \<and> (\<forall>k < length clauses.
               some_clause_passes qbf expansion
                 (iterative_inplace_quickort sort_identity (clauses ! k))))"
    by (simp add: All_less_Suc2)
  show ?case
    using step r mono iff n1 unfolding all by (auto split: if_splits)
qed

lemma origin_clause_passes_some:
  "origins ! k < length (matrix qbf) \<Longrightarrow> origin_clause_passes qbf expansion origins E k \<Longrightarrow>
     some_clause_passes qbf expansion E"
  by (auto simp: origin_clause_passes_def some_clause_passes_def)

text \<open>
  Claim C5. Let the pair be well-formed: every literal of every expansion clause has a
  mapping record, no ordering of the formula exceeds the length of the prefix, and the
  origin map holds for every expansion clause the index of a matrix clause, which is a
  source clause of the expansion clause if it has one (\<open>origins_faithful\<close>). Then the
  run of \<open>ferat_check\<close> with the origin map and the run without it both return, and
  with the same verdict. Without the condition on the source clauses both runs return
  as well, and a run with the map that verifies implies that the run without it verifies.
\<close>

theorem origin_toggle_verdict:
  assumes "clause_origins expansion = Some origins"
    and "list_all (all_mapped expansion) clauses"
    and "orderings_in_prefix qbf"
    and "origins_in_range qbf origins clauses"
  shows "\<exists>v1 e1 r1 v2 e2 r2.
           ferat_check result qbf expansion clauses = Inr (v1, e1, r1)
         \<and> ferat_check result qbf (expansion\<lparr>clause_origins := None\<rparr>) clauses = Inr (v2, e2, r2)
         \<and> (v1 \<longrightarrow> v2)
         \<and> (origins_faithful qbf expansion origins clauses \<longrightarrow> v1 = v2)"
proof -
  let ?n = "expansion\<lparr>clause_origins := None\<rparr>"
  have mp: "\<forall>c \<in> set clauses. all_mapped expansion c"
    using assms(2) by (simp add: list_all_iff)
  have len: "0 + length clauses \<le> length origins"
    and rng: "\<forall>k < length clauses. origins ! (0 + k) < length (matrix qbf)"
    using assms(4) by (simp_all add: origins_in_range_def)
  from check_clauses_origin[OF assms(1,3) mp len rng, of result] obtain r1 where
    c1: "check_clauses qbf clauses 0 expansion result = Inr (expansion, r1)"
    and m1: "num_results result \<le> num_results r1"
    and i1: "num_results r1 = num_results result \<longleftrightarrow>
            (\<forall>k < length clauses.
               origin_clause_passes qbf expansion origins
                 (iterative_inplace_quickort sort_identity (clauses ! k)) k)"
    by auto
  have n0: "clause_origins ?n = None" by simp
  have am: "\<forall>c \<in> set clauses. all_mapped ?n c" using mp by (simp add: all_mapped_origins)
  from check_clauses_iterative[OF n0 assms(3) am, of 0 result] obtain r2 where
    c2: "check_clauses qbf clauses 0 ?n result = Inr (?n, r2)"
    and m2: "num_results result \<le> num_results r2"
    and i2: "num_results r2 = num_results result \<longleftrightarrow>
            (\<forall>k < length clauses.
               some_clause_passes qbf expansion
                 (iterative_inplace_quickort sort_identity (clauses ! k)))"
    by (auto simp: some_clause_passes_def passes_tests_origins)
  have v1: "num_results r1 = 0 \<longleftrightarrow> (num_results result = 0 \<and> num_results r1 = num_results result)"
    using m1 by auto
  have v2: "num_results r2 = 0 \<longleftrightarrow> (num_results result = 0 \<and> num_results r2 = num_results result)"
    using m2 by auto
  have imp: "(\<forall>k < length clauses.
               origin_clause_passes qbf expansion origins
                 (iterative_inplace_quickort sort_identity (clauses ! k)) k)
          \<Longrightarrow> (\<forall>k < length clauses.
               some_clause_passes qbf expansion
                 (iterative_inplace_quickort sort_identity (clauses ! k)))"
    using rng origin_clause_passes_some by auto
  have "num_results r1 = 0 \<longrightarrow> num_results r2 = 0"
    unfolding v1 v2 i1 i2 using imp by blast
  moreover have "origins_faithful qbf expansion origins clauses \<longrightarrow>
      (num_results r1 = 0) = (num_results r2 = 0)"
    unfolding v1 v2 i1 i2 using imp by (auto simp: origins_faithful_def)
  ultimately show ?thesis
    using c1 c2 by (simp add: ferat_check_def)
qed

lemmas check_eval = checker_eval sort_eval ferat_check_def two_clause_qbf_def

text \<open>
  The condition on the source clauses cannot be dropped, since the origin map is trusted:
  when the map names the second matrix clause, whose annotation test fails, while the
  first matrix clause passes both tests, the run with the map records
  \<open>INCORRECT_ANNOTATION\<close> and the run without it verifies.
\<close>

lemma origin_map_is_trusted:
  "\<not> origins_faithful two_clause_qbf (example_expansion [3] (Some [1])) [1] [[2, 4]]
   \<and> ferat_check ferat_check_result_new two_clause_qbf (example_expansion [3] (Some [1])) [[2, 4]]
     = Inr (False, example_expansion [3] (Some [1]),
            \<lparr>types = [FERAT_CHECK_RESULT_INCORRECT_ANNOTATION], clause_indices = [0],
             num_results = 1\<rparr>)
   \<and> ferat_check ferat_check_result_new two_clause_qbf (example_expansion [3] None) [[2, 4]]
     = Inr (True, example_expansion [3] None, ferat_check_result_new)"
  by (simp add: check_eval origins_faithful_def origin_clause_passes_def
        some_clause_passes_def)

theorem origin_toggle_verdict_witness:
  "clause_origins (example_expansion [3] (Some [0, 0])) = Some [0, 0]
   \<and> list_all (all_mapped (example_expansion [3] (Some [0, 0]))) [[4, 2]]
   \<and> list_all (all_mapped (example_expansion [3] (Some [0, 0]))) [[4, 2], [2]]
   \<and> orderings_in_prefix two_clause_qbf
   \<and> origins_in_range two_clause_qbf [0, 0] [[4, 2]]
   \<and> origins_in_range two_clause_qbf [0, 0] [[4, 2], [2]]
   \<and> origins_faithful two_clause_qbf (example_expansion [3] (Some [0, 0])) [0, 0] [[4, 2]]
   \<and> origins_faithful two_clause_qbf (example_expansion [3] (Some [0, 0])) [0, 0]
        [[4, 2], [2]]
   \<and> ferat_check ferat_check_result_new two_clause_qbf (example_expansion [3] (Some [0, 0]))
        [[4, 2]]
      = Inr (True, example_expansion [3] (Some [0, 0]), ferat_check_result_new)
   \<and> ferat_check ferat_check_result_new two_clause_qbf
        ((example_expansion [3] (Some [0, 0]))\<lparr>clause_origins := None\<rparr>) [[4, 2]]
      = Inr (True, example_expansion [3] None, ferat_check_result_new)
   \<and> ferat_check ferat_check_result_new two_clause_qbf (example_expansion [3] (Some [0, 0]))
        [[4, 2], [2]]
      = Inr (False, example_expansion [3] (Some [0, 0]),
             \<lparr>types = [FERAT_CHECK_RESULT_INCORRECT_LITERALS], clause_indices = [1],
              num_results = 1\<rparr>)
   \<and> ferat_check ferat_check_result_new two_clause_qbf
        ((example_expansion [3] (Some [0, 0]))\<lparr>clause_origins := None\<rparr>) [[4, 2], [2]]
      = Inr (False, example_expansion [3] None,
             \<lparr>types = [FERAT_CHECK_RESULT_INCORRECT_LITERALS], clause_indices = [1],
              num_results = 1\<rparr>)"
proof -
  let ?x = "example_expansion [3] (Some [0, 0])"
  have o: "clause_origins ?x = Some [0, 0]"
    by (simp add: example_expansion_def)
  have m1: "list_all (all_mapped ?x) [[4, 2]]"
    and m2: "list_all (all_mapped ?x) [[4, 2], [2]]"
    by (simp_all add: checker_eval)
  have p: "orderings_in_prefix two_clause_qbf"
    by (simp add: checker_eval two_clause_qbf_def)
  have r1: "origins_in_range two_clause_qbf [0, 0] [[4, 2]]"
    and r2: "origins_in_range two_clause_qbf [0, 0] [[4, 2], [2]]"
    by (simp_all add: origins_in_range_def two_clause_qbf_def All_less_Suc2)
  have f1: "origins_faithful two_clause_qbf ?x [0, 0] [[4, 2]]"
    by (simp add: origins_faithful_def origin_clause_passes_def check_eval)
  have f2: "origins_faithful two_clause_qbf ?x [0, 0] [[4, 2], [2]]"
    by (simp add: origins_faithful_def origin_clause_passes_def some_clause_passes_def
          check_eval All_less_Suc2)
  have c1: "ferat_check ferat_check_result_new two_clause_qbf ?x [[4, 2]]
      = Inr (True, ?x, ferat_check_result_new)"
    by (simp add: check_eval)
  have c2: "ferat_check ferat_check_result_new two_clause_qbf
        (?x\<lparr>clause_origins := None\<rparr>) [[4, 2]]
      = Inr (True, example_expansion [3] None, ferat_check_result_new)"
    by (simp add: check_eval)
  have c3: "ferat_check ferat_check_result_new two_clause_qbf ?x [[4, 2], [2]]
      = Inr (False, ?x,
             \<lparr>types = [FERAT_CHECK_RESULT_INCORRECT_LITERALS], clause_indices = [1],
              num_results = 1\<rparr>)"
    by (simp add: check_eval)
  have c4: "ferat_check ferat_check_result_new two_clause_qbf
        (?x\<lparr>clause_origins := None\<rparr>) [[4, 2], [2]]
      = Inr (False, example_expansion [3] None,
             \<lparr>types = [FERAT_CHECK_RESULT_INCORRECT_LITERALS], clause_indices = [1],
              num_results = 1\<rparr>)"
    by (simp add: check_eval)
  show ?thesis
    using origin_toggle_verdict[OF o m1 p r1, of ferat_check_result_new]
      origin_toggle_verdict[OF o m2 p r2, of ferat_check_result_new]
      o m1 m2 p r1 r2 f1 f2 c1 c2 c3 c4
    by simp
qed

end
